theory Spec2Isabelle
  imports Main "HOL-Library.Word" "HOL-Library.AList"
begin

section \<open>The cache table of cache-demo, embedded from cacheitem.go and cachetable.go\<close>

text \<open>
  The embedding follows one goroutine through the table's operations. What the Go code
  does beyond returning a value is made explicit:
  \<^item> items live behind pointers, so the model has a heap from addresses to items and the
    table's map holds addresses;
  \<^item> the two \<^verbatim>\<open>sync.RWMutex\<close>es are state (a writer flag and a reader count); in a
    single goroutine an acquisition that cannot proceed blocks for ever and a release of a
    lock that is not held is the runtime's fatal error, and both end the run;
  \<^item> every \<^verbatim>\<open>time.Now()\<close> is a clock reading passed as an argument, in the order
    of the calls; \<^verbatim>\<open>time.Duration\<close> and the access counter are int64, here 64-bit
    words read as signed numbers;
  \<^item> callbacks and the data loader are opaque function values: a callback is an
    identifier and each call is appended to a trace (what a callback does on its own is
    outside the model), the loader is a function from its arguments to the item it
    builds;
  \<^item> \<^verbatim>\<open>range table.items\<close> visits the map in an order Go leaves open: the map is an
    association list and the loop follows its order, so a statement about every table
    covers every order;
  \<^item> the timer is state (its duration, and whether it was stopped); its firing runs
    \<open>expirationCheck\<close> in another goroutine, here a call of \<open>expirationCheck\<close>.
  The logger only prints and is left out.
\<close>

subsection \<open>Values, clocks and locks\<close>

type_synonym addr = nat
type_synonym time = int
type_synonym duration = "64 word"
type_synonym callback = nat

text \<open>\<^verbatim>\<open>interface{}\<close> values: keys, payloads, a pointer to an item, a slice of values.\<close>

datatype val = VStr string | VInt int | VItem addr | VSlice "val list"

text \<open>The two error values the package returns to its callers.\<close>

datatype err = ErrKeyNotFound | ErrKeyNotFoundOrLoadable

text \<open>How a run ends without returning.\<close>

datatype fatal = UnlockOfUnlocked | RUnlockOfUnlocked | Deadlock

record RWMutex =
  writer :: bool
  readers :: nat

definition unlocked :: RWMutex where
  "unlocked = \<lparr>writer = False, readers = 0\<rparr>"

definition rw_Lock :: "RWMutex \<Rightarrow> fatal + RWMutex" where
  "rw_Lock m = (if writer m \<or> 0 < readers m then Inl Deadlock else Inr (m\<lparr>writer := True\<rparr>))"

definition rw_Unlock :: "RWMutex \<Rightarrow> fatal + RWMutex" where
  "rw_Unlock m = (if writer m then Inr (m\<lparr>writer := False\<rparr>) else Inl UnlockOfUnlocked)"

definition rw_RLock :: "RWMutex \<Rightarrow> fatal + RWMutex" where
  "rw_RLock m = (if writer m then Inl Deadlock else Inr (m\<lparr>readers := Suc (readers m)\<rparr>))"

definition rw_RUnlock :: "RWMutex \<Rightarrow> fatal + RWMutex" where
  "rw_RUnlock m =
     (if readers m = 0 then Inl RUnlockOfUnlocked else Inr (m\<lparr>readers := readers m - 1\<rparr>))"

text \<open>
  \<^verbatim>\<open>Time.Sub\<close>: the difference of two readings as an int64 number of nanoseconds,
  saturating at the largest and smallest duration.
\<close>

definition time_Sub :: "time \<Rightarrow> time \<Rightarrow> duration" where
  "time_Sub t u =
     (if 2 ^ 63 - 1 < t - u then word_of_int (2 ^ 63 - 1)
      else if t - u < - (2 ^ 63) then word_of_int (- (2 ^ 63))
      else word_of_int (t - u))"

subsection \<open>Items and the table\<close>

record CacheItem =
  item_mutex :: RWMutex
  key :: val
  item_value :: val
  lifeSpan :: duration
  createdOn :: time
  accessedOn :: time
  accessCount :: "64 word"
  aboutToExpire :: "callback list"

record Timer =
  timer_duration :: duration
  timer_active :: bool

record CacheTable =
  table_mutex :: RWMutex
  name :: string
  items :: "(val \<times> addr) list"
  cleanupTimer :: "Timer option"
  cleanupInterval :: duration
  loadData :: "(val \<Rightarrow> val list \<Rightarrow> CacheItem option) option"
  addItem :: "callback list"
  aboutToDeleteItem :: "callback list"

datatype event =
    CallAddedItem callback addr
  | CallAboutToDeleteItem callback addr
  | CallAboutToExpire addr callback val
  | CallLoadData val "val list"

record world =
  heap :: "addr \<Rightarrow> CacheItem"
  nextAddr :: addr
  table :: CacheTable
  trace :: "event list"

type_synonym 'a result = "(fatal \<times> world) + ('a \<times> world)"

definition alloc :: "CacheItem \<Rightarrow> world \<Rightarrow> addr \<times> world" where
  "alloc it w = (nextAddr w, w\<lparr>heap := (heap w)(nextAddr w := it), nextAddr := Suc (nextAddr w)\<rparr>)"

definition table_Lock :: "world \<Rightarrow> (fatal \<times> world) + world" where
  "table_Lock w =
     (case rw_Lock (table_mutex (table w)) of
        Inl e \<Rightarrow> Inl (e, w)
      | Inr m \<Rightarrow> Inr (w\<lparr>table := (table w)\<lparr>table_mutex := m\<rparr>\<rparr>))"

definition table_Unlock :: "world \<Rightarrow> (fatal \<times> world) + world" where
  "table_Unlock w =
     (case rw_Unlock (table_mutex (table w)) of
        Inl e \<Rightarrow> Inl (e, w)
      | Inr m \<Rightarrow> Inr (w\<lparr>table := (table w)\<lparr>table_mutex := m\<rparr>\<rparr>))"

definition table_RLock :: "world \<Rightarrow> (fatal \<times> world) + world" where
  "table_RLock w =
     (case rw_RLock (table_mutex (table w)) of
        Inl e \<Rightarrow> Inl (e, w)
      | Inr m \<Rightarrow> Inr (w\<lparr>table := (table w)\<lparr>table_mutex := m\<rparr>\<rparr>))"

definition table_RUnlock :: "world \<Rightarrow> (fatal \<times> world) + world" where
  "table_RUnlock w =
     (case rw_RUnlock (table_mutex (table w)) of
        Inl e \<Rightarrow> Inl (e, w)
      | Inr m \<Rightarrow> Inr (w\<lparr>table := (table w)\<lparr>table_mutex := m\<rparr>\<rparr>))"

definition set_item_mutex :: "addr \<Rightarrow> RWMutex \<Rightarrow> world \<Rightarrow> world" where
  "set_item_mutex a m w = w\<lparr>heap := (heap w)(a := (heap w a)\<lparr>item_mutex := m\<rparr>)\<rparr>"

definition item_Lock :: "addr \<Rightarrow> world \<Rightarrow> (fatal \<times> world) + world" where
  "item_Lock a w =
     (case rw_Lock (item_mutex (heap w a)) of
        Inl e \<Rightarrow> Inl (e, w)
      | Inr m \<Rightarrow> Inr (set_item_mutex a m w))"

definition item_Unlock :: "addr \<Rightarrow> world \<Rightarrow> (fatal \<times> world) + world" where
  "item_Unlock a w =
     (case rw_Unlock (item_mutex (heap w a)) of
        Inl e \<Rightarrow> Inl (e, w)
      | Inr m \<Rightarrow> Inr (set_item_mutex a m w))"

definition item_RLock :: "addr \<Rightarrow> world \<Rightarrow> (fatal \<times> world) + world" where
  "item_RLock a w =
     (case rw_RLock (item_mutex (heap w a)) of
        Inl e \<Rightarrow> Inl (e, w)
      | Inr m \<Rightarrow> Inr (set_item_mutex a m w))"

definition item_RUnlock :: "addr \<Rightarrow> world \<Rightarrow> (fatal \<times> world) + world" where
  "item_RUnlock a w =
     (case rw_RUnlock (item_mutex (heap w a)) of
        Inl e \<Rightarrow> Inl (e, w)
      | Inr m \<Rightarrow> Inr (set_item_mutex a m w))"

text \<open>Calling the callbacks of a list in order, each with the same argument.\<close>

definition call_all :: "(callback \<Rightarrow> event) \<Rightarrow> callback list \<Rightarrow> world \<Rightarrow> world" where
  "call_all ev cbs w = w\<lparr>trace := trace w @ map ev cbs\<rparr>"

subsection \<open>cacheitem.go\<close>

definition NewCacheItem :: "time \<Rightarrow> val \<Rightarrow> duration \<Rightarrow> val \<Rightarrow> CacheItem" where
  "NewCacheItem now k ls v =
     \<lparr>item_mutex = unlocked, key = k, item_value = v, lifeSpan = ls, createdOn = now,
      accessedOn = now, accessCount = 0, aboutToExpire = []\<rparr>"

definition KeepAlive :: "time \<Rightarrow> addr \<Rightarrow> world \<Rightarrow> (fatal \<times> world) + world" where
  "KeepAlive now a w =
     (case item_Lock a w of
        Inl e \<Rightarrow> Inl e
      | Inr w1 \<Rightarrow>
          item_Unlock a
            (w1\<lparr>heap := (heap w1)(a := (heap w1 a)\<lparr>accessedOn := now,
                                                    accessCount := accessCount (heap w1 a) + 1\<rparr>)\<rparr>))"

subsection \<open>cachetable.go\<close>

definition Count :: "world \<Rightarrow> nat result" where
  "Count w =
     (case table_RLock w of
        Inl e \<Rightarrow> Inl e
      | Inr w1 \<Rightarrow>
          (case table_RUnlock w1 of
             Inl e \<Rightarrow> Inl e
           | Inr w2 \<Rightarrow> Inr (length (items (table w1)), w2)))"

definition Exists :: "val \<Rightarrow> world \<Rightarrow> bool result" where
  "Exists k w =
     (case table_RLock w of
        Inl e \<Rightarrow> Inl e
      | Inr w1 \<Rightarrow>
          (case table_RUnlock w1 of
             Inl e \<Rightarrow> Inl e
           | Inr w2 \<Rightarrow> Inr (map_of (items (table w1)) k \<noteq> None, w2)))"

text \<open>
  \<^verbatim>\<open>deleteInternal\<close> is entered with the table locked. It releases the table, runs the
  table's callbacks with the item and the item's own with the key, takes the table again
  and deletes the key. The item is read-locked before its callbacks run and the deferred
  call at the return is \<^verbatim>\<open>r.Unlock()\<close>.
\<close>

definition deleteInternal :: "val \<Rightarrow> world \<Rightarrow> (err + addr) result" where
  "deleteInternal k w =
     (case map_of (items (table w)) k of
        None \<Rightarrow> Inr (Inl ErrKeyNotFound, w)
      | Some r \<Rightarrow>
          (case table_Unlock w of
             Inl e \<Rightarrow> Inl e
           | Inr w1 \<Rightarrow>
               (case item_RLock r (call_all (\<lambda>cb. CallAboutToDeleteItem cb r)
                                     (aboutToDeleteItem (table w)) w1) of
                  Inl e \<Rightarrow> Inl e
                | Inr w2 \<Rightarrow>
                    (case table_Lock (call_all (\<lambda>cb. CallAboutToExpire r cb k)
                                        (aboutToExpire (heap w2 r)) w2) of
                       Inl e \<Rightarrow> Inl e
                     | Inr w3 \<Rightarrow>
                         (case item_Unlock r
                                 (w3\<lparr>table := (table w3)\<lparr>items := AList.delete k (items (table w3))\<rparr>\<rparr>) of
                            Inl e \<Rightarrow> Inl e
                          | Inr w4 \<Rightarrow> Inr (Inr r, w4))))))"

definition Delete :: "val \<Rightarrow> world \<Rightarrow> (err + addr) result" where
  "Delete k w =
     (case table_Lock w of
        Inl e \<Rightarrow> Inl e
      | Inr w1 \<Rightarrow>
          (case deleteInternal k
                  (w1\<lparr>table := (table w1)\<lparr>items := AList.delete k (items (table w1))\<rparr>\<rparr>) of
             Inl e \<Rightarrow> Inl e
           | Inr (r, w2) \<Rightarrow>
               (case table_Unlock w2 of
                  Inl e \<Rightarrow> Inl e
                | Inr w3 \<Rightarrow> Inr (r, w3))))"

text \<open>One turn of the loop of \<^verbatim>\<open>expirationCheck\<close>, for the key \<open>k\<close> and its item.\<close>

definition sweep_item :: "time \<Rightarrow> val \<Rightarrow> addr \<Rightarrow> duration \<Rightarrow> world \<Rightarrow> duration result" where
  "sweep_item now k item sd w =
     (case item_RLock item w of
        Inl e \<Rightarrow> Inl e
      | Inr w1 \<Rightarrow>
          (case item_RUnlock item w1 of
             Inl e \<Rightarrow> Inl e
           | Inr w2 \<Rightarrow>
               (let ls = lifeSpan (heap w1 item); ao = accessedOn (heap w1 item) in
                if ls = 0 then Inr (sd, w2)
                else if ls \<le>s time_Sub now ao then
                  (case deleteInternal k w2 of
                     Inl e \<Rightarrow> Inl e
                   | Inr (_, w3) \<Rightarrow> Inr (sd, w3))
                else if sd = 0 \<or> ls - time_Sub now ao <s sd then Inr (ls - time_Sub now ao, w2)
                else Inr (sd, w2))))"

text \<open>
  The loop over the entries the map had when the loop began; an entry deleted before the
  loop reaches it is not visited.
\<close>

fun sweep_loop :: "time \<Rightarrow> val list \<Rightarrow> duration \<Rightarrow> world \<Rightarrow> duration result" where
  "sweep_loop now [] sd w = Inr (sd, w)"
| "sweep_loop now (k # ks) sd w =
     (case map_of (items (table w)) k of
        None \<Rightarrow> sweep_loop now ks sd w
      | Some item \<Rightarrow>
          (case sweep_item now k item sd w of
             Inl e \<Rightarrow> Inl e
           | Inr (sd', w') \<Rightarrow> sweep_loop now ks sd' w'))"

definition stop_timer :: "world \<Rightarrow> world" where
  "stop_timer w =
     (case cleanupTimer (table w) of
        None \<Rightarrow> w
      | Some t \<Rightarrow> w\<lparr>table := (table w)\<lparr>cleanupTimer := Some (t\<lparr>timer_active := False\<rparr>)\<rparr>\<rparr>)"

definition expirationCheck :: "time \<Rightarrow> world \<Rightarrow> (fatal \<times> world) + world" where
  "expirationCheck now w =
     (case table_Lock w of
        Inl e \<Rightarrow> Inl e
      | Inr w1 \<Rightarrow>
          (case sweep_loop now (map fst (items (table w1))) 0 (stop_timer w1) of
             Inl e \<Rightarrow> Inl e
           | Inr (sd, w2) \<Rightarrow>
               table_Unlock
                 (w2\<lparr>table := (table w2)
                      \<lparr>cleanupInterval := sd,
                       cleanupTimer :=
                         (if 0 <s sd then Some \<lparr>timer_duration = sd, timer_active = True\<rparr>
                          else cleanupTimer (table w2))\<rparr>\<rparr>)))"

text \<open>\<^verbatim>\<open>addInternal\<close> is entered with the table locked and releases it.\<close>

definition addInternal :: "time \<Rightarrow> addr \<Rightarrow> world \<Rightarrow> (fatal \<times> world) + world" where
  "addInternal now item w =
     (let w1 = w\<lparr>table := (table w)
                   \<lparr>items := AList.update (key (heap w item)) item (items (table w))\<rparr>\<rparr>;
          expDur = cleanupInterval (table w1);
          addedItem = addItem (table w1)
      in case table_Unlock w1 of
           Inl e \<Rightarrow> Inl e
         | Inr w2 \<Rightarrow>
             (let w3 = call_all (\<lambda>cb. CallAddedItem cb item) addedItem w2 in
              if 0 <s lifeSpan (heap w3 item) \<and>
                 (expDur = 0 \<or> lifeSpan (heap w3 item) <s expDur)
              then expirationCheck now w3
              else Inr w3))"

text \<open>
  \<open>Add\<close> reads the clock in \<^verbatim>\<open>NewCacheItem\<close> (\<open>now\<close>) and again if it starts an
  expiration check (\<open>now'\<close>).
\<close>

definition Add :: "time \<Rightarrow> time \<Rightarrow> val \<Rightarrow> duration \<Rightarrow> val \<Rightarrow> world \<Rightarrow> addr result" where
  "Add now now' k ls v w =
     (case alloc (NewCacheItem now k ls v) w of
        (item, w1) \<Rightarrow>
          (case table_Lock w1 of
             Inl e \<Rightarrow> Inl e
           | Inr w2 \<Rightarrow>
               (case addInternal now' item w2 of
                  Inl e \<Rightarrow> Inl e
                | Inr w3 \<Rightarrow> Inr (item, w3))))"

definition NotFoundAdd :: "time \<Rightarrow> time \<Rightarrow> val \<Rightarrow> duration \<Rightarrow> val \<Rightarrow> world \<Rightarrow> bool result" where
  "NotFoundAdd now now' k ls v w =
     (case table_Lock w of
        Inl e \<Rightarrow> Inl e
      | Inr w1 \<Rightarrow>
          (case map_of (items (table w1)) k of
             Some _ \<Rightarrow>
               (case table_Unlock w1 of
                  Inl e \<Rightarrow> Inl e
                | Inr w2 \<Rightarrow> Inr (False, w2))
           | None \<Rightarrow>
               (case alloc (NewCacheItem now k ls v) w1 of
                  (item, w2) \<Rightarrow>
                    (case addInternal now' item w2 of
                       Inl e \<Rightarrow> Inl e
                     | Inr w3 \<Rightarrow> Inr (True, w3)))))"

text \<open>
  \<open>Value\<close>: the loader is called as \<^verbatim>\<open>loadData(key, args)\<close>, so its variadic parameter
  holds one element, the slice \<open>args\<close>; the item it returns is allocated where the loader
  built it and \<^verbatim>\<open>table.Add(key, item.lifeSpan, item)\<close> gets the pointer as its data.
\<close>

definition Value :: "time \<Rightarrow> time \<Rightarrow> val \<Rightarrow> val list \<Rightarrow> world \<Rightarrow> (err + addr) result" where
  "Value now now' k args w =
     (case table_RLock w of
        Inl e \<Rightarrow> Inl e
      | Inr w1 \<Rightarrow>
          (case table_RUnlock w1 of
             Inl e \<Rightarrow> Inl e
           | Inr w2 \<Rightarrow>
               (case map_of (items (table w1)) k of
                  Some item \<Rightarrow>
                    (case KeepAlive now item w2 of
                       Inl e \<Rightarrow> Inl e
                     | Inr w3 \<Rightarrow> Inr (Inr item, w3))
                | None \<Rightarrow>
                    (case loadData (table w1) of
                       None \<Rightarrow> Inr (Inl ErrKeyNotFound, w2)
                     | Some f \<Rightarrow>
                         (let w3 = w2\<lparr>trace := trace w2 @ [CallLoadData k [VSlice args]]\<rparr> in
                          case f k [VSlice args] of
                            None \<Rightarrow> Inr (Inl ErrKeyNotFoundOrLoadable, w3)
                          | Some loaded \<Rightarrow>
                              (case alloc loaded w3 of
                                 (item, w4) \<Rightarrow>
                                   (case Add now now' k (lifeSpan (heap w4 item)) (VItem item) w4 of
                                      Inl e \<Rightarrow> Inl e
                                    | Inr (_, w5) \<Rightarrow> Inr (Inr item, w5))))))))"

definition Flush :: "world \<Rightarrow> (fatal \<times> world) + world" where
  "Flush w =
     (case table_Lock w of
        Inl e \<Rightarrow> Inl e
      | Inr w1 \<Rightarrow>
          table_Unlock
            (stop_timer (w1\<lparr>table := (table w1)\<lparr>items := [], cleanupInterval := 0\<rparr>\<rparr>)))"

text \<open>
  \<^verbatim>\<open>sort.Sort(p)\<close> with \<^verbatim>\<open>Less(i, j) = p[i].AccessCount > p[j].AccessCount\<close>: the
  library's sort is given by what it guarantees, a permutation in which no element is
  \<^verbatim>\<open>Less\<close> than one before it; an insertion sort stands for it (Go leaves the order of
  equal counts open).
\<close>

fun insert_pair :: "val \<times> 64 word \<Rightarrow> (val \<times> 64 word) list \<Rightarrow> (val \<times> 64 word) list" where
  "insert_pair x [] = [x]"
| "insert_pair x (y # ys) = (if snd y <s snd x then x # y # ys else y # insert_pair x ys)"

definition sort_pairs :: "(val \<times> 64 word) list \<Rightarrow> (val \<times> 64 word) list" where
  "sort_pairs p = foldr insert_pair p []"

text \<open>The loop that turns the sorted pairs back into items, at most \<open>count\<close> of them.\<close>

fun collect :: "64 word \<Rightarrow> 64 word \<Rightarrow> (val \<times> 64 word) list \<Rightarrow> (val \<times> addr) list \<Rightarrow> addr list" where
  "collect count c [] tbl = []"
| "collect count c (v # vs) tbl =
     (if count \<le>s c then []
      else (case map_of tbl (fst v) of
              Some item \<Rightarrow> item # collect count (c + 1) vs tbl
            | None \<Rightarrow> collect count (c + 1) vs tbl))"

definition most_accessed_items :: "64 word \<Rightarrow> world \<Rightarrow> addr list" where
  "most_accessed_items count w =
     collect count 0
       (sort_pairs (map (\<lambda>(k, v). (k, accessCount (heap w v))) (items (table w))))
       (items (table w))"

text \<open>\<open>MostAccessed\<close> takes the read lock and defers \<^verbatim>\<open>table.Unlock()\<close>.\<close>

definition MostAccessed :: "64 word \<Rightarrow> world \<Rightarrow> (addr list) result" where
  "MostAccessed count w =
     (case table_RLock w of
        Inl e \<Rightarrow> Inl e
      | Inr w1 \<Rightarrow>
          (case table_Unlock w1 of
             Inl e \<Rightarrow> Inl e
           | Inr w2 \<Rightarrow> Inr (most_accessed_items count w1, w2)))"

subsection \<open>What a sweep decides and computes\<close>

text \<open>The test of \<open>expirationCheck\<close> for deleting an item, at the clock reading \<open>now\<close>.\<close>

definition expired :: "time \<Rightarrow> CacheItem \<Rightarrow> bool" where
  "expired now it \<longleftrightarrow> lifeSpan it \<noteq> 0 \<and> lifeSpan it \<le>s time_Sub now (accessedOn it)"

text \<open>The update of \<open>smallestDuration\<close> by an item that is kept, and by a list of them.\<close>

definition next_sd :: "time \<Rightarrow> CacheItem \<Rightarrow> duration \<Rightarrow> duration" where
  "next_sd now it sd =
     (if lifeSpan it = 0 then sd
      else if sd = 0 \<or> lifeSpan it - time_Sub now (accessedOn it) <s sd
      then lifeSpan it - time_Sub now (accessedOn it)
      else sd)"

fun fold_sd :: "time \<Rightarrow> (addr \<Rightarrow> CacheItem) \<Rightarrow> addr list \<Rightarrow> duration \<Rightarrow> duration" where
  "fold_sd now h [] sd = sd"
| "fold_sd now h (a # as) sd = fold_sd now h as (next_sd now (h a) sd)"

text \<open>
  The remaining time to live as the specification has it, a number of nanoseconds:
  the lifespan minus the time since the last access; and the list of these numbers for
  the items of the table that have a nonzero lifespan.
\<close>

definition remaining :: "time \<Rightarrow> CacheItem \<Rightarrow> int" where
  "remaining now it = sint (lifeSpan it) - (now - accessedOn it)"

definition ttl_list :: "time \<Rightarrow> (addr \<Rightarrow> CacheItem) \<Rightarrow> addr list \<Rightarrow> int list" where
  "ttl_list now h as = map (\<lambda>a. remaining now (h a)) (filter (\<lambda>a. lifeSpan (h a) \<noteq> 0) as)"

definition ttls :: "time \<Rightarrow> world \<Rightarrow> int list" where
  "ttls now w = ttl_list now (heap w) (map snd (items (table w)))"

text \<open>A timer is armed when the table has one that was not stopped.\<close>

definition timer_armed :: "CacheTable \<Rightarrow> bool" where
  "timer_armed t = (case cleanupTimer t of None \<Rightarrow> False | Some tm \<Rightarrow> timer_active tm)"

subsection \<open>What an insertion does\<close>

text \<open>The test of \<open>addInternal\<close> for starting an expiration check.\<close>

definition starts_check :: "duration \<Rightarrow> duration \<Rightarrow> bool" where
  "starts_check ls expDur \<longleftrightarrow> 0 <s ls \<and> (expDur = 0 \<or> ls <s expDur)"

text \<open>
  A check at \<open>now\<close> finds nothing to delete among the items \<open>as\<close>, and can read each of
  them (none is write-locked).
\<close>

definition sweep_clean :: "time \<Rightarrow> (addr \<Rightarrow> CacheItem) \<Rightarrow> addr list \<Rightarrow> bool" where
  "sweep_clean now h as =
     list_all (\<lambda>a. \<not> expired now (h a) \<and> \<not> writer (item_mutex (h a))) as"

text \<open>
  The check that follows the insertion of a new item under \<open>k\<close>, created at \<open>now\<close> with
  lifespan \<open>ls\<close>, finds nothing to delete at \<open>now'\<close>: neither the new item nor the items
  under the other keys; and the insertion evicts nothing when it starts no check or the
  check finds nothing.
\<close>

definition check_finds_nothing :: "time \<Rightarrow> time \<Rightarrow> val \<Rightarrow> duration \<Rightarrow> world \<Rightarrow> bool" where
  "check_finds_nothing now now' k ls w \<longleftrightarrow>
     \<not> (ls \<noteq> 0 \<and> ls \<le>s time_Sub now' now) \<and>
     sweep_clean now' (heap w) (map snd (AList.delete k (items (table w))))"

definition no_eviction :: "time \<Rightarrow> time \<Rightarrow> val \<Rightarrow> duration \<Rightarrow> world \<Rightarrow> bool" where
  "no_eviction now now' k ls w \<longleftrightarrow>
     \<not> starts_check ls (cleanupInterval (table w)) \<or> check_finds_nothing now now' k ls w"

text \<open>
  The tables a run can reach hold every key once and every item once, and only items
  that have been allocated.
\<close>

definition table_ok :: "world \<Rightarrow> bool" where
  "table_ok w \<longleftrightarrow>
     distinct (map fst (items (table w))) \<and> distinct (map snd (items (table w))) \<and>
     list_all (\<lambda>a. a < nextAddr w) (map snd (items (table w)))"

text \<open>
  The state after \<open>Add\<close> has created its item, stored it and called the \<open>addItem\<close>
  callbacks; and the state after the data loader has built an item.
\<close>

definition inserted :: "time \<Rightarrow> val \<Rightarrow> duration \<Rightarrow> val \<Rightarrow> world \<Rightarrow> world" where
  "inserted now k ls v w =
     w\<lparr>heap := (heap w)(nextAddr w := NewCacheItem now k ls v),
       nextAddr := Suc (nextAddr w),
       table := (table w)\<lparr>items := AList.update k (nextAddr w) (items (table w))\<rparr>,
       trace := trace w @ map (\<lambda>cb. CallAddedItem cb (nextAddr w)) (addItem (table w))\<rparr>"

definition loaded :: "CacheItem \<Rightarrow> val \<Rightarrow> val list \<Rightarrow> world \<Rightarrow> world" where
  "loaded it k args w =
     w\<lparr>trace := trace w @ [CallLoadData k [VSlice args]],
       heap := (heap w)(nextAddr w := it),
       nextAddr := Suc (nextAddr w)\<rparr>"

text \<open>An event is about an item when it is a callback called with or for that item.\<close>

definition about :: "addr \<Rightarrow> event \<Rightarrow> bool" where
  "about d e =
     (case e of
        CallAddedItem cb x \<Rightarrow> x = d
      | CallAboutToDeleteItem cb x \<Rightarrow> x = d
      | CallAboutToExpire x cb k \<Rightarrow> x = d
      | CallLoadData k args \<Rightarrow> False)"

subsection \<open>Reading the outcome of a run\<close>

text \<open>The state in which a run returned, or in which it stopped.\<close>

definition last_world :: "(fatal \<times> world) + world \<Rightarrow> world" where
  "last_world r = (case r of Inl (e, w) \<Rightarrow> w | Inr w \<Rightarrow> w)"

definition result_world :: "'a result \<Rightarrow> world" where
  "result_world r = (case r of Inl (e, w) \<Rightarrow> w | Inr (x, w) \<Rightarrow> w)"

text \<open>One call of \<open>Value\<close> with the key \<open>k\<close> at each clock reading of a list.\<close>

fun Value_each :: "time list \<Rightarrow> val \<Rightarrow> world \<Rightarrow> ((err + addr) list) result" where
  "Value_each [] k w = Inr ([], w)"
| "Value_each (t # ts) k w =
     (case Value t t k [] w of
        Inl e \<Rightarrow> Inl e
      | Inr (r, w1) \<Rightarrow>
          (case Value_each ts k w1 of
             Inl e \<Rightarrow> Inl e
           | Inr (rs, w2) \<Rightarrow> Inr (r # rs, w2)))"

subsection \<open>A table to run the operations on\<close>

definition demo_item :: "val \<Rightarrow> duration \<Rightarrow> 64 word \<Rightarrow> callback list \<Rightarrow> CacheItem" where
  "demo_item k ls n cbs =
     (NewCacheItem 0 k ls (VStr ''x''))\<lparr>accessCount := n, aboutToExpire := cbs\<rparr>"

text \<open>
  Three items created and last read at time 0: \<open>a\<close> never expires, \<open>b\<close> lives 10ns and
  \<open>c\<close> 100ns; two callbacks of each kind are registered and no lock is held.
\<close>

definition demo_table :: CacheTable where
  "demo_table =
     \<lparr>table_mutex = unlocked, name = ''demo'',
      items = [(VStr ''a'', 0), (VStr ''b'', 1), (VStr ''c'', 2)],
      cleanupTimer = Some \<lparr>timer_duration = 10, timer_active = True\<rparr>,
      cleanupInterval = 10, loadData = None, addItem = [1, 2], aboutToDeleteItem = [3, 4]\<rparr>"

definition demo_world :: world where
  "demo_world =
     \<lparr>heap = (\<lambda>_. demo_item (VStr []) 0 0 [])
        (0 := demo_item (VStr ''a'') 0 0 [5, 6],
         1 := demo_item (VStr ''b'') 10 3 [7, 8],
         2 := demo_item (VStr ''c'') 100 1 []),
      nextAddr = 3, table = demo_table, trace = []\<rparr>"



section \<open>Properties\<close>

lemmas lock_defs = table_Lock_def table_Unlock_def table_RLock_def table_RUnlock_def
  item_Lock_def item_Unlock_def item_RLock_def item_RUnlock_def set_item_mutex_def
  rw_Lock_def rw_Unlock_def rw_RLock_def rw_RUnlock_def unlocked_def

lemmas demo_defs = demo_world_def demo_table_def demo_item_def NewCacheItem_def

lemmas sweep_defs = expirationCheck_def stop_timer_def sweep_item_def deleteInternal_def
  call_all_def time_Sub_def word_sless_alt word_sle_eq Let_def

subsection \<open>Delete\<close>

lemma deleteInternal_absent:
  "map_of (items (table w)) k = None \<Longrightarrow> deleteInternal k w = Inr (Inl ErrKeyNotFound, w)"
  by (simp add: deleteInternal_def)

lemma map_of_delete_self: "map_of (AList.delete k al) k = None"
  by (simp add: delete_conv')

text \<open>
  C1. The claim: \<open>Delete k\<close> on a present key removes the item and returns it with no
  error, and fails with \<open>KeyNotFound\<close> only when the key is absent. The code deletes the
  key from the map before it calls \<open>deleteInternal\<close>, which then never finds it: on a
  present key \<open>Delete\<close> removes the entry and returns \<open>ErrKeyNotFound\<close> and no item.
\<close>

theorem Delete_KeyNotFound_when_present:
  assumes "table_mutex (table w) = unlocked" and "map_of (items (table w)) k = Some r"
  shows "Delete k w =
           Inr (Inl ErrKeyNotFound,
                w\<lparr>table := (table w)\<lparr>items := AList.delete k (items (table w))\<rparr>\<rparr>)"
  using assms(1)
  by (simp add: Delete_def table_Lock_def table_Unlock_def rw_Lock_def rw_Unlock_def unlocked_def
      deleteInternal_absent map_of_delete_self)

theorem Delete_KeyNotFound_when_present_witness:
  "table_mutex (table demo_world) = unlocked \<and>
   map_of (items (table demo_world)) (VStr ''b'') = Some 1 \<and>
   Delete (VStr ''b'') demo_world =
     Inr (Inl ErrKeyNotFound,
          demo_world\<lparr>table := demo_table\<lparr>items := [(VStr ''a'', 0), (VStr ''c'', 2)]\<rparr>\<rparr>)"
proof -
  have h1: "table_mutex (table demo_world) = unlocked"
    by (simp add: demo_world_def demo_table_def)
  have h2: "map_of (items (table demo_world)) (VStr ''b'') = Some 1"
    by (simp add: demo_world_def demo_table_def)
  show ?thesis
    using Delete_KeyNotFound_when_present [OF h1 h2] h1 h2
    by (simp add: demo_world_def demo_table_def)
qed

subsection \<open>MostAccessed\<close>

text \<open>
  C8. The claim: \<open>MostAccessed n\<close> returns at most \<open>min n (Count ())\<close> items in order of
  non-increasing access count. The code takes the table's read lock and defers the
  release of the write lock, which the runtime answers with a fatal error (or the read
  lock cannot be taken): no call of \<open>MostAccessed\<close> returns.
\<close>

theorem MostAccessed_never_returns: "isl (MostAccessed count w)"
  by (simp add: MostAccessed_def table_RLock_def table_Unlock_def rw_RLock_def rw_Unlock_def)

subsection \<open>Value on a hit\<close>

lemma table_mutex_idem:
  "table_mutex t = \<lparr>writer = False, readers = 0\<rparr> \<Longrightarrow>
   t\<lparr>table_mutex := \<lparr>writer = False, readers = 0\<rparr>\<rparr> = t"
  by (cases t) simp

lemma Value_hit:
  assumes "table_mutex (table w) = unlocked" and "map_of (items (table w)) k = Some a"
    and "item_mutex (heap w a) = unlocked"
  shows "Value now now' k args w =
           Inr (Inr a, w\<lparr>heap := (heap w)(a := (heap w a)\<lparr>accessedOn := now,
                                          accessCount := accessCount (heap w a) + 1\<rparr>)\<rparr>)"
proof -
  have t: "(table w)\<lparr>table_mutex := \<lparr>writer = False, readers = 0\<rparr>\<rparr> = table w"
    using assms(1) by (simp add: table_mutex_idem unlocked_def)
  show ?thesis
    using assms
    apply (simp add: Value_def KeepAlive_def lock_defs t)
    apply (cases "heap w a")
    apply simp
    done
qed

lemma sint_of_nat_small:
  assumes "n < 2 ^ 63"
  shows "sint (word_of_nat n :: 64 word) = int n"
proof -
  have "(word_of_nat n :: 64 word) = word_of_int (int n)"
    by simp
  moreover have "signed_take_bit 63 (int n) = int n"
    using assms by (intro signed_take_bit_int_eq_self) auto
  ultimately show ?thesis
    by (simp only: sint_sbintrunc') simp
qed

lemma sint_succ_small:
  assumes "sint (x :: 64 word) < 2 ^ 63 - 1"
  shows "sint (x + 1) = sint x + 1"
proof -
  have "- (2 ^ 63) \<le> sint x"
    using sint_ge [of x] by simp
  then have "signed_take_bit 63 (sint x + 1) = sint x + 1"
    using assms by (intro signed_take_bit_int_eq_self) auto
  then show ?thesis
    by (simp add: sint_word_add)
qed

lemma Value_each_hits:
  assumes "table_mutex (table w) = unlocked" and "map_of (items (table w)) k = Some a"
    and "item_mutex (heap w a) = unlocked"
  shows "\<exists>w'. Value_each ts k w = Inr (replicate (length ts) (Inr a), w') \<and>
              accessCount (heap w' a) = accessCount (heap w a) + word_of_nat (length ts) \<and>
              table w' = table w \<and> item_mutex (heap w' a) = unlocked"
  using assms
proof (induction ts arbitrary: w)
  case Nil
  then show ?case by simp
next
  case (Cons t ts)
  let ?w1 = "w\<lparr>heap := (heap w)(a := (heap w a)\<lparr>accessedOn := t,
                                          accessCount := accessCount (heap w a) + 1\<rparr>)\<rparr>"
  have step: "Value t t k [] w = Inr (Inr a, ?w1)"
    using Cons.prems by (rule Value_hit)
  have "table_mutex (table ?w1) = unlocked" "map_of (items (table ?w1)) k = Some a"
    "item_mutex (heap ?w1 a) = unlocked"
    using Cons.prems by simp_all
  from Cons.IH [OF this] obtain w' where
    r: "Value_each ts k ?w1 = Inr (replicate (length ts) (Inr a), w')"
    and c: "accessCount (heap w' a) = accessCount (heap ?w1 a) + word_of_nat (length ts)"
    and t: "table w' = table ?w1" and m: "item_mutex (heap w' a) = unlocked"
    by blast
  show ?case
    using step r c t m by simp
qed

text \<open>
  C4. On a key that is present, with no lock held, \<open>Value\<close> returns the key's item, adds
  one to its \<open>accessCount\<close> and sets \<open>accessedOn\<close> to the clock reading of the call, which
  is not before the previous value when the clock has not run backwards; the table is
  left as it was. From an access count of 0, \<open>n\<close> calls, all of them hits, give an
  access count of \<open>n\<close>. The counter is an int64: the sums are stated for its signed value
  below the largest int64.
\<close>

theorem Value_hit_counts_accesses:
  assumes "table_mutex (table w) = unlocked" and "map_of (items (table w)) k = Some a"
    and "item_mutex (heap w a) = unlocked"
    and "accessedOn (heap w a) \<le> now"
    and "sint (accessCount (heap w a)) < 2 ^ 63 - 1"
    and "length ts < 2 ^ 63"
  shows "(\<exists>w'. Value now now' k args w = Inr (Inr a, w') \<and>
               accessCount (heap w' a) = accessCount (heap w a) + 1 \<and>
               sint (accessCount (heap w' a)) = sint (accessCount (heap w a)) + 1 \<and>
               accessedOn (heap w' a) = now \<and>
               accessedOn (heap w a) \<le> accessedOn (heap w' a) \<and>
               table w' = table w) \<and>
         (accessCount (heap w a) = 0 \<longrightarrow>
            (\<exists>w'. Value_each ts k w = Inr (replicate (length ts) (Inr a), w') \<and>
                  sint (accessCount (heap w' a)) = int (length ts)))"
proof (intro conjI impI)
  show "\<exists>w'. Value now now' k args w = Inr (Inr a, w') \<and>
               accessCount (heap w' a) = accessCount (heap w a) + 1 \<and>
               sint (accessCount (heap w' a)) = sint (accessCount (heap w a)) + 1 \<and>
               accessedOn (heap w' a) = now \<and>
               accessedOn (heap w a) \<le> accessedOn (heap w' a) \<and>
               table w' = table w"
    using Value_hit [OF assms(1-3), of now now' args] assms(4) sint_succ_small [OF assms(5)]
    by simp
next
  assume z: "accessCount (heap w a) = 0"
  from Value_each_hits [OF assms(1-3), of ts] obtain w' where
    r: "Value_each ts k w = Inr (replicate (length ts) (Inr a), w')"
    and c: "accessCount (heap w' a) = accessCount (heap w a) + word_of_nat (length ts)"
    by blast
  have "sint (accessCount (heap w' a)) = int (length ts)"
    using c z sint_of_nat_small [OF assms(6)] by simp
  with r show "\<exists>w'. Value_each ts k w = Inr (replicate (length ts) (Inr a), w') \<and>
                    sint (accessCount (heap w' a)) = int (length ts)"
    by blast
qed

theorem Value_hit_counts_accesses_witness:
  "table_mutex (table demo_world) = unlocked \<and>
   map_of (items (table demo_world)) (VStr ''a'') = Some 0 \<and>
   item_mutex (heap demo_world 0) = unlocked \<and>
   accessedOn (heap demo_world 0) \<le> 5 \<and>
   sint (accessCount (heap demo_world 0)) < 2 ^ 63 - 1 \<and>
   length [1, 2, 3 :: time] < 2 ^ 63 \<and>
   accessCount (heap demo_world 0) = 0 \<and>
   (\<exists>w'. Value 5 6 (VStr ''a'') [] demo_world = Inr (Inr 0, w') \<and>
         sint (accessCount (heap w' 0)) = 1 \<and> accessedOn (heap w' 0) = 5) \<and>
   (\<exists>w'. Value_each [1, 2, 3] (VStr ''a'') demo_world = Inr ([Inr 0, Inr 0, Inr 0], w') \<and>
         sint (accessCount (heap w' 0)) = 3)"
proof -
  have h1: "table_mutex (table demo_world) = unlocked"
    by (simp add: demo_defs)
  have h2: "map_of (items (table demo_world)) (VStr ''a'') = Some 0"
    by (simp add: demo_defs)
  have h3: "item_mutex (heap demo_world 0) = unlocked"
    by (simp add: demo_defs)
  have h4: "accessedOn (heap demo_world 0) \<le> 5"
    by (simp add: demo_defs)
  have h5: "sint (accessCount (heap demo_world 0)) < 2 ^ 63 - 1"
    by (simp add: demo_defs)
  have h6: "length [1, 2, 3 :: time] < 2 ^ 63"
    by simp
  have h7: "accessCount (heap demo_world 0) = 0"
    by (simp add: demo_defs)
  show ?thesis
    using Value_hit_counts_accesses [OF h1 h2 h3 h4 h5 h6, of 6 "[]"] h1 h2 h3 h4 h5 h7
    by (auto simp del: Value_each.simps)
qed

subsection \<open>Flush\<close>

text \<open>
  C10. With no lock held, \<open>Flush\<close> returns and leaves a table with no item
  (\<open>Count\<close> is 0), a \<open>cleanupInterval\<close> of 0 and no running timer; the callbacks of both
  kinds, the data loader and the name are as before. The table is usable afterwards: an
  \<open>Add\<close> (of an item that has not expired by the time of the check it may start) returns
  the new item, the table holds it under its key and the \<open>addItem\<close> callbacks registered
  before the flush are called with it.
\<close>

theorem Flush_clears_items_keeps_configuration:
  assumes "table_mutex (table w) = unlocked"
    and "ls \<le>s 0 \<or> time_Sub now' now <s ls"
  shows "\<exists>w'. Flush w = Inr w' \<and> items (table w') = [] \<and> Count w' = Inr (0, w') \<and>
           cleanupInterval (table w') = 0 \<and>
           (case cleanupTimer (table w') of None \<Rightarrow> True | Some t \<Rightarrow> \<not> timer_active t) \<and>
           addItem (table w') = addItem (table w) \<and>
           aboutToDeleteItem (table w') = aboutToDeleteItem (table w) \<and>
           loadData (table w') = loadData (table w) \<and>
           name (table w') = name (table w) \<and>
           table_mutex (table w') = unlocked \<and>
           trace w' = trace w \<and>
           (\<exists>w''. Add now now' k ls v w' = Inr (nextAddr w, w'') \<and>
                  items (table w'') = [(k, nextAddr w)] \<and>
                  heap w'' (nextAddr w) = NewCacheItem now k ls v \<and>
                  trace w'' =
                    trace w @ map (\<lambda>cb. CallAddedItem cb (nextAddr w)) (addItem (table w)))"
proof -
  have n: "\<not> 0 <s ls \<or> \<not> ls \<le>s time_Sub now' now"
    using assms(2) by (auto simp: word_sless_alt word_sle_eq)
  show ?thesis
    using assms(1) n
    apply (cases "cleanupTimer (table w)")
     apply (simp_all add: Flush_def Count_def lock_defs stop_timer_def Add_def alloc_def
        addInternal_def call_all_def NewCacheItem_def expirationCheck_def sweep_item_def Let_def)
    done
qed

theorem Flush_clears_items_keeps_configuration_witness:
  "table_mutex (table demo_world) = unlocked \<and> time_Sub 6 5 <s (10 :: duration) \<and>
   (\<exists>w'. Flush demo_world = Inr w' \<and> items (table w') = [] \<and> Count w' = Inr (0, w') \<and>
         cleanupInterval (table w') = 0 \<and> addItem (table w') = [1, 2] \<and>
         aboutToDeleteItem (table w') = [3, 4] \<and> name (table w') = ''demo'' \<and>
         (\<exists>w''. Add 5 6 (VStr ''k'') 10 (VStr ''v'') w' = Inr (3, w'') \<and>
                items (table w'') = [(VStr ''k'', 3)] \<and>
                trace w'' = [CallAddedItem 1 3, CallAddedItem 2 3]))"
proof -
  have h1: "table_mutex (table demo_world) = unlocked"
    by (simp add: demo_defs)
  have h2: "time_Sub 6 5 <s (10 :: duration)"
    by (simp add: time_Sub_def word_sless_alt)
  have h2': "(10 :: duration) \<le>s 0 \<or> time_Sub 6 5 <s (10 :: duration)"
    using h2 by simp
  have c: "nextAddr demo_world = 3" "addItem (table demo_world) = [1, 2]"
    "aboutToDeleteItem (table demo_world) = [3, 4]" "name (table demo_world) = ''demo''"
    "trace demo_world = []"
    by (simp_all add: demo_defs)
  show ?thesis
    using Flush_clears_items_keeps_configuration [OF h1 h2', of "VStr ''k''" "VStr ''v''"] h1 h2
    unfolding c by auto
qed

subsection \<open>The callbacks of a removal\<close>

text \<open>
  C3. The claim: whenever \<open>Delete\<close> or the sweep removes an item, the table's
  \<open>aboutToDeleteItem\<close> callbacks and then the item's own expiry callbacks are called, each
  once, before the item leaves the map. On the table above, which has two callbacks of
  each kind for \<open>b\<close>, \<open>Delete\<close> removes \<open>b\<close> and calls none of them: the key is gone
  from the map before \<open>deleteInternal\<close> looks for it. The sweep does call them, in the
  claimed order, and then stops in the deferred \<^verbatim>\<open>r.Unlock()\<close> of \<open>deleteInternal\<close>.
\<close>

theorem Delete_skips_the_callbacks:
  "Delete (VStr ''b'') demo_world =
     Inr (Inl ErrKeyNotFound,
          demo_world\<lparr>table := demo_table\<lparr>items := [(VStr ''a'', 0), (VStr ''c'', 2)]\<rparr>\<rparr>) \<and>
   aboutToDeleteItem demo_table = [3, 4] \<and> aboutToExpire (heap demo_world 1) = [7, 8] \<and>
   trace (result_world (Delete (VStr ''b'') demo_world)) = [] \<and>
   fst (projl (expirationCheck 20 demo_world)) = UnlockOfUnlocked \<and>
   trace (last_world (expirationCheck 20 demo_world)) =
     [CallAboutToDeleteItem 3 1, CallAboutToDeleteItem 4 1,
      CallAboutToExpire 1 7 (VStr ''b''), CallAboutToExpire 1 8 (VStr ''b'')]"
  by (simp add: demo_defs Delete_def lock_defs sweep_defs result_world_def last_world_def)

subsection \<open>The sweep\<close>

text \<open>
  C5. The claim: a sweep removes exactly the items with a nonzero lifespan that have
  expired. At time 200 both \<open>b\<close> (10ns) and \<open>c\<close> (100ns) of the table above have expired:
  the sweep removes \<open>b\<close> and stops there with the fatal error of releasing a write lock
  that is not held (\<open>deleteInternal\<close> read-locks the item and defers \<^verbatim>\<open>r.Unlock()\<close>);
  \<open>c\<close> is still in the map and the sweep has not returned.
\<close>

theorem sweep_stops_at_first_expired_item:
  "isl (expirationCheck 200 demo_world) \<and>
   fst (projl (expirationCheck 200 demo_world)) = UnlockOfUnlocked \<and>
   items (table (last_world (expirationCheck 200 demo_world))) =
     [(VStr ''a'', 0), (VStr ''c'', 2)] \<and>
   lifeSpan (heap demo_world 2) = 100 \<and> accessedOn (heap demo_world 2) = 0"
  by (simp add: demo_defs lock_defs sweep_defs last_world_def)

lemma item_RLock_RUnlock:
  assumes "item_RLock a w = Inr w1"
  shows "item_RUnlock a w1 = Inr w" and "lifeSpan (heap w1 a) = lifeSpan (heap w a)"
    and "accessedOn (heap w1 a) = accessedOn (heap w a)"
    and "\<not> writer (item_mutex (heap w a))"
  using assms
  by (auto simp: item_RLock_def item_RUnlock_def rw_RLock_def rw_RUnlock_def set_item_mutex_def
      split: if_splits)

lemma item_RLock_free:
  "\<not> writer (item_mutex (heap w a)) \<Longrightarrow> \<exists>w1. item_RLock a w = Inr w1"
  by (simp add: item_RLock_def rw_RLock_def)

lemma deleteInternal_present_stops:
  assumes "map_of (items (table w)) k = Some r"
  shows "isl (deleteInternal k w)"
  using assms
  by (simp add: deleteInternal_def lock_defs call_all_def split: sum.splits if_splits)

lemma sweep_item_Inr:
  assumes "sweep_item now k a sd w = Inr (sd', w')" and "map_of (items (table w)) k = Some a"
  shows "w' = w" and "sd' = next_sd now (heap w a) sd" and "\<not> expired now (heap w a)"
    and "\<not> writer (item_mutex (heap w a))"
proof -
  from assms(1) obtain w1 where l: "item_RLock a w = Inr w1"
    by (auto simp: sweep_item_def split: sum.splits)
  note r = item_RLock_RUnlock [OF l]
  have d: "isl (deleteInternal k w)"
    using assms(2) by (rule deleteInternal_present_stops)
  from assms(1) l r d show "w' = w" and "sd' = next_sd now (heap w a) sd"
    and "\<not> expired now (heap w a)"
    by (auto simp: sweep_item_def Let_def next_sd_def expired_def split: if_splits sum.splits)
  show "\<not> writer (item_mutex (heap w a))" by (rule r(4))
qed

lemma sweep_item_returns:
  assumes "\<not> writer (item_mutex (heap w a))" and "\<not> expired now (heap w a)"
  shows "sweep_item now k a sd w = Inr (next_sd now (heap w a) sd, w)"
proof -
  from item_RLock_free [OF assms(1)] obtain w1 where l: "item_RLock a w = Inr w1" ..
  note r = item_RLock_RUnlock [OF l]
  show ?thesis
    using assms(2) l r
    by (auto simp: sweep_item_def Let_def next_sd_def expired_def)
qed

lemma sweep_loop_Inr:
  assumes "sweep_loop now (map fst al) sd w = Inr (sd', w')"
    and "\<forall>(k, a) \<in> set al. map_of (items (table w)) k = Some a"
  shows "w' = w \<and> sd' = fold_sd now (heap w) (map snd al) sd \<and>
         (\<forall>a \<in> snd ` set al. \<not> expired now (heap w a) \<and> \<not> writer (item_mutex (heap w a)))"
  using assms
proof (induction al arbitrary: sd)
  case Nil
  then show ?case by simp
next
  case (Cons p al)
  obtain k a where p: "p = (k, a)" by (cases p)
  have m: "map_of (items (table w)) k = Some a"
    using Cons.prems(2) p by simp
  from Cons.prems(1) p m obtain sd1 w1 where
    s: "sweep_item now k a sd w = Inr (sd1, w1)" and
    l: "sweep_loop now (map fst al) sd1 w1 = Inr (sd', w')"
    by (auto split: sum.splits)
  note i = sweep_item_Inr [OF s m]
  have "w' = w \<and> sd' = fold_sd now (heap w) (map snd al) sd1 \<and>
        (\<forall>a \<in> snd ` set al. \<not> expired now (heap w a) \<and> \<not> writer (item_mutex (heap w a)))"
    using Cons.IH [of sd1] l i(1) Cons.prems(2) by simp
  then show ?case
    using i p by simp
qed

lemma sweep_loop_returns:
  assumes "\<forall>(k, a) \<in> set al. map_of (items (table w)) k = Some a"
    and "\<forall>a \<in> snd ` set al. \<not> expired now (heap w a) \<and> \<not> writer (item_mutex (heap w a))"
  shows "sweep_loop now (map fst al) sd w = Inr (fold_sd now (heap w) (map snd al) sd, w)"
  using assms
proof (induction al arbitrary: sd)
  case Nil
  then show ?case by simp
next
  case (Cons p al)
  obtain k a where p: "p = (k, a)" by (cases p)
  have m: "map_of (items (table w)) k = Some a"
    using Cons.prems(1) p by simp
  have s: "sweep_item now k a sd w = Inr (next_sd now (heap w a) sd, w)"
    using Cons.prems(2) p by (intro sweep_item_returns) simp_all
  have "sweep_loop now (map fst al) (next_sd now (heap w a) sd) w =
          Inr (fold_sd now (heap w) (map snd al) (next_sd now (heap w a) sd), w)"
    using Cons.prems by (intro Cons.IH) simp_all
  then show ?case
    using p m s by simp
qed

lemma distinct_keys_map_of:
  "distinct (map fst al) \<Longrightarrow> \<forall>(k, a) \<in> set al. map_of al k = Some a"
  by auto

lemma remaining_exact:
  assumes "lifeSpan it \<noteq> 0" and "\<not> expired now it" and "accessedOn it \<le> now"
  shows "sint (lifeSpan it - time_Sub now (accessedOn it)) = remaining now it"
    and "0 < remaining now it"
proof -
  let ?d = "now - accessedOn it"
  let ?e = "time_Sub now (accessedOn it)"
  have lt: "sint ?e < sint (lifeSpan it)"
    using assms(1,2) by (simp add: expired_def word_sle_eq)
  have up: "sint (lifeSpan it) \<le> 2 ^ 63 - 1"
    using sint_lt [of "lifeSpan it"] by simp
  have small: "?d \<le> 2 ^ 63 - 1"
  proof (rule ccontr)
    assume "\<not> ?d \<le> 2 ^ 63 - 1"
    then have "sint ?e = 2 ^ 63 - 1"
      by (simp add: time_Sub_def)
    with lt up show False by simp
  qed
  have nonneg: "0 \<le> ?d"
    using assms(3) by simp
  have "signed_take_bit 63 ?d = ?d"
    using small nonneg by (intro signed_take_bit_int_eq_self) auto
  then have e0: "sint (word_of_int ?d :: 64 word) = ?d"
    by (simp only: sint_sbintrunc') simp
  have "?e = word_of_int ?d"
    using small nonneg by (simp add: time_Sub_def)
  then have e: "sint ?e = ?d"
    by (simp only: e0)
  have "signed_take_bit 63 (sint (lifeSpan it) - ?d) = sint (lifeSpan it) - ?d"
    using lt e up nonneg by (intro signed_take_bit_int_eq_self) auto
  then show "sint (lifeSpan it - ?e) = remaining now it"
    using e by (simp add: sint_word_diff remaining_def)
  show "0 < remaining now it"
    using lt e by (simp add: remaining_def)
qed

lemma next_sd_sint:
  assumes "lifeSpan it \<noteq> 0" and "\<not> expired now it" and "accessedOn it \<le> now"
    and "sd = 0 \<or> 0 < sint sd"
  shows "sint (next_sd now it sd) =
           (if sd = 0 then remaining now it else min (sint sd) (remaining now it))"
    and "0 < sint (next_sd now it sd)"
proof -
  note r = remaining_exact [OF assms(1-3)]
  show "sint (next_sd now it sd) =
           (if sd = 0 then remaining now it else min (sint sd) (remaining now it))"
    using assms(1) r by (auto simp: next_sd_def word_sless_alt)
  then show "0 < sint (next_sd now it sd)"
    using r(2) assms(4) by (auto split: if_splits)
qed

lemma fold_sd_min:
  assumes "\<forall>a \<in> set as. \<not> expired now (h a) \<and> accessedOn (h a) \<le> now"
    and "sd = 0 \<or> 0 < sint sd"
  shows "(ttl_list now h as = [] \<longrightarrow> fold_sd now h as sd = sd) \<and>
         (ttl_list now h as \<noteq> [] \<longrightarrow>
            sint (fold_sd now h as sd) =
              (if sd = 0 then Min (set (ttl_list now h as))
               else min (sint sd) (Min (set (ttl_list now h as)))))"
  using assms
proof (induction as arbitrary: sd)
  case Nil
  then show ?case by (simp add: ttl_list_def)
next
  case (Cons a as)
  show ?case
  proof (cases "lifeSpan (h a) = 0")
    case True
    then have "next_sd now (h a) sd = sd" "ttl_list now h (a # as) = ttl_list now h as"
      by (simp_all add: next_sd_def ttl_list_def)
    then show ?thesis
      using Cons.IH [of sd] Cons.prems by simp
  next
    case False
    let ?sd1 = "next_sd now (h a) sd"
    have ne: "\<not> expired now (h a)" and mono: "accessedOn (h a) \<le> now"
      using Cons.prems(1) by simp_all
    note n = next_sd_sint [OF False ne mono Cons.prems(2)]
    have pos: "?sd1 = 0 \<or> 0 < sint ?sd1"
      using n(2) by simp
    have nz: "?sd1 \<noteq> 0"
      using n(2) by auto
    have L: "ttl_list now h (a # as) = remaining now (h a) # ttl_list now h as"
      using False by (simp add: ttl_list_def)
    have IH: "(ttl_list now h as = [] \<longrightarrow> fold_sd now h as ?sd1 = ?sd1) \<and>
         (ttl_list now h as \<noteq> [] \<longrightarrow>
            sint (fold_sd now h as ?sd1) = min (sint ?sd1) (Min (set (ttl_list now h as))))"
      using Cons.IH [OF _ pos] Cons.prems(1) nz by simp
    show ?thesis
    proof (cases "ttl_list now h as = []")
      case True
      then show ?thesis
        using IH L n(1) by simp
    next
      case False
      then have "sint (fold_sd now h (a # as) sd) = min (sint ?sd1) (Min (set (ttl_list now h as)))"
        using IH by simp
      then show ?thesis
        using L n(1) False by (auto simp: min.assoc min.commute min.left_commute)
    qed
  qed
qed

lemma stop_timer_fields:
  "heap (stop_timer w) = heap w" "trace (stop_timer w) = trace w"
  "nextAddr (stop_timer w) = nextAddr w"
  "items (table (stop_timer w)) = items (table w)"
  "table_mutex (table (stop_timer w)) = table_mutex (table w)"
  "addItem (table (stop_timer w)) = addItem (table w)"
  "aboutToDeleteItem (table (stop_timer w)) = aboutToDeleteItem (table w)"
  "loadData (table (stop_timer w)) = loadData (table w)"
  "name (table (stop_timer w)) = name (table w)"
  "\<not> timer_armed (table (stop_timer w))"
  by (simp_all add: stop_timer_def timer_armed_def split: option.splits)

lemma expirationCheck_Inr:
  assumes "expirationCheck now w = Inr w'" and "distinct (map fst (items (table w)))"
  shows "heap w' = heap w" and "items (table w') = items (table w)" and "trace w' = trace w"
    and "nextAddr w' = nextAddr w"
    and "cleanupInterval (table w') = fold_sd now (heap w) (map snd (items (table w))) 0"
    and "timer_armed (table w') \<longleftrightarrow> 0 <s cleanupInterval (table w')"
    and "timer_armed (table w') \<longrightarrow>
           cleanupTimer (table w') =
             Some \<lparr>timer_duration = cleanupInterval (table w'), timer_active = True\<rparr>"
    and "\<forall>a \<in> snd ` set (items (table w)).
           \<not> expired now (heap w a) \<and> \<not> writer (item_mutex (heap w a))"
    and "table_mutex (table w') = unlocked" and "table_mutex (table w) = unlocked"
    and "addItem (table w') = addItem (table w)"
    and "aboutToDeleteItem (table w') = aboutToDeleteItem (table w)"
    and "loadData (table w') = loadData (table w)" and "name (table w') = name (table w)"
proof -
  from assms(1) obtain w1 sd w2 where
    l: "table_Lock w = Inr w1" and
    s: "sweep_loop now (map fst (items (table w1))) 0 (stop_timer w1) = Inr (sd, w2)" and
    u: "table_Unlock
          (w2\<lparr>table := (table w2)
               \<lparr>cleanupInterval := sd,
                cleanupTimer :=
                  (if 0 <s sd then Some \<lparr>timer_duration = sd, timer_active = True\<rparr>
                   else cleanupTimer (table w2))\<rparr>\<rparr>) = Inr w'"
    by (auto simp: expirationCheck_def split: sum.splits)
  from l have w1: "heap w1 = heap w" "items (table w1) = items (table w)" "trace w1 = trace w"
    "nextAddr w1 = nextAddr w" "table_mutex (table w1) = \<lparr>writer = True, readers = 0\<rparr>"
    "addItem (table w1) = addItem (table w)"
    "aboutToDeleteItem (table w1) = aboutToDeleteItem (table w)"
    "loadData (table w1) = loadData (table w)" "name (table w1) = name (table w)"
    and free: "table_mutex (table w) = unlocked"
    by (auto simp: table_Lock_def rw_Lock_def unlocked_def split: if_splits)
  have m: "\<forall>(k, a) \<in> set (items (table w)). map_of (items (table (stop_timer w1))) k = Some a"
    using assms(2) by (auto simp: stop_timer_fields w1)
  note r = sweep_loop_Inr [OF s [unfolded w1] m]
  from r have w2: "w2 = stop_timer w1" and sd: "sd = fold_sd now (heap w) (map snd (items (table w))) 0"
    by (simp_all add: stop_timer_fields w1)
  from u show "heap w' = heap w" and "items (table w') = items (table w)" and "trace w' = trace w"
    and "nextAddr w' = nextAddr w"
    and "addItem (table w') = addItem (table w)"
    and "aboutToDeleteItem (table w') = aboutToDeleteItem (table w)"
    and "loadData (table w') = loadData (table w)" and "name (table w') = name (table w)"
    and "table_mutex (table w') = unlocked"
    by (auto simp: table_Unlock_def rw_Unlock_def w2 stop_timer_fields w1 unlocked_def split: if_splits)
  from u show "cleanupInterval (table w') = fold_sd now (heap w) (map snd (items (table w))) 0"
    by (auto simp: table_Unlock_def rw_Unlock_def sd split: if_splits)
  from u have ci: "cleanupInterval (table w') = sd" and
    ct: "cleanupTimer (table w') =
          (if 0 <s sd then Some \<lparr>timer_duration = sd, timer_active = True\<rparr>
           else cleanupTimer (table (stop_timer w1)))"
    by (auto simp: table_Unlock_def rw_Unlock_def w2 split: if_splits)
  show "timer_armed (table w') \<longleftrightarrow> 0 <s cleanupInterval (table w')"
    using stop_timer_fields(10) [of w1] by (simp add: ci ct timer_armed_def)
  show "timer_armed (table w') \<longrightarrow>
           cleanupTimer (table w') =
             Some \<lparr>timer_duration = cleanupInterval (table w'), timer_active = True\<rparr>"
    using stop_timer_fields(10) [of w1] by (simp add: ci ct timer_armed_def)
  show "\<forall>a \<in> snd ` set (items (table w)).
           \<not> expired now (heap w a) \<and> \<not> writer (item_mutex (heap w a))"
    using r by (simp add: stop_timer_fields w1)
  show "table_mutex (table w) = unlocked" by (rule free)
qed

lemma expirationCheck_returns:
  assumes "table_mutex (table w) = unlocked" and "distinct (map fst (items (table w)))"
    and "\<forall>a \<in> snd ` set (items (table w)).
           \<not> expired now (heap w a) \<and> \<not> writer (item_mutex (heap w a))"
  shows "\<exists>w'. expirationCheck now w = Inr w'"
proof -
  let ?w1 = "w\<lparr>table := (table w)\<lparr>table_mutex := \<lparr>writer = True, readers = 0\<rparr>\<rparr>\<rparr>"
  have l: "table_Lock w = Inr ?w1"
    using assms(1) by (simp add: table_Lock_def rw_Lock_def unlocked_def)
  have m: "\<forall>(k, a) \<in> set (items (table w)). map_of (items (table (stop_timer ?w1))) k = Some a"
    using assms(2) by (auto simp: stop_timer_fields)
  have n: "\<forall>a \<in> snd ` set (items (table w)).
             \<not> expired now (heap (stop_timer ?w1) a) \<and> \<not> writer (item_mutex (heap (stop_timer ?w1) a))"
    using assms(3) by (simp add: stop_timer_fields)
  have s: "sweep_loop now (map fst (items (table w))) 0 (stop_timer ?w1) =
             Inr (fold_sd now (heap (stop_timer ?w1)) (map snd (items (table w))) 0, stop_timer ?w1)"
    by (rule sweep_loop_returns [OF m n])
  show ?thesis
    by (simp add: expirationCheck_def l s table_Unlock_def rw_Unlock_def stop_timer_fields)
qed

text \<open>
  C7. When a sweep has completed, \<open>cleanupInterval\<close> is the least remaining time to live
  (lifespan minus time since the last access) of the items in the table that have a
  nonzero lifespan, and 0 when there is none; a timer is armed, for that duration,
  exactly when the interval is positive. The table is one a Go map can be (every key
  once) and the clock has not run backwards since the items were last read.
\<close>

theorem sweep_sets_cleanupInterval_to_min_ttl:
  assumes "expirationCheck now w = Inr w'"
    and "distinct (map fst (items (table w)))"
    and "list_all (\<lambda>a. accessedOn (heap w a) \<le> now) (map snd (items (table w)))"
  shows "(if ttls now w' = [] then cleanupInterval (table w') = 0
          else sint (cleanupInterval (table w')) = Min (set (ttls now w')) \<and>
               0 < Min (set (ttls now w'))) \<and>
         timer_armed (table w') = (0 < sint (cleanupInterval (table w'))) \<and>
         (if 0 < sint (cleanupInterval (table w'))
          then cleanupTimer (table w') =
                 Some \<lparr>timer_duration = cleanupInterval (table w'), timer_active = True\<rparr>
          else \<not> timer_armed (table w'))"
proof -
  note e = expirationCheck_Inr [OF assms(1,2)]
  have t: "ttls now w' = ttl_list now (heap w) (map snd (items (table w)))"
    by (simp add: ttls_def e)
  have a: "\<forall>a \<in> set (map snd (items (table w))).
             \<not> expired now (heap w a) \<and> accessedOn (heap w a) \<le> now"
    using e(8) assms(3) by (simp add: list_all_iff)
  have z: "(0 :: duration) = 0 \<or> 0 < sint (0 :: duration)" by simp
  note f = fold_sd_min [OF a z]
  have pos: "ttls now w' \<noteq> [] \<Longrightarrow> 0 < Min (set (ttls now w'))"
  proof -
    assume ne: "ttls now w' \<noteq> []"
    have "\<forall>x \<in> set (ttls now w'). 0 < x"
      using a by (auto simp: t ttl_list_def remaining_exact(2))
    then show ?thesis using ne by simp
  qed
  show ?thesis
    using f e(5) e(6) e(7) pos by (simp add: t word_sless_alt)
qed

theorem sweep_sets_cleanupInterval_to_min_ttl_witness:
  "expirationCheck 5 demo_world =
     Inr (demo_world\<lparr>table := demo_table
            \<lparr>cleanupInterval := 5,
             cleanupTimer := Some \<lparr>timer_duration = 5, timer_active = True\<rparr>\<rparr>\<rparr>) \<and>
   distinct (map fst (items (table demo_world))) \<and>
   accessedOn (heap demo_world 0) \<le> 5 \<and> accessedOn (heap demo_world 1) \<le> 5 \<and>
   accessedOn (heap demo_world 2) \<le> 5 \<and>
   ttls 5 (last_world (expirationCheck 5 demo_world)) = [5, 95] \<and>
   sint (cleanupInterval (table (last_world (expirationCheck 5 demo_world)))) = Min {5, 95} \<and>
   timer_armed (table (last_world (expirationCheck 5 demo_world)))"
proof -
  let ?w' = "demo_world\<lparr>table := demo_table
            \<lparr>cleanupInterval := 5,
             cleanupTimer := Some \<lparr>timer_duration = 5, timer_active = True\<rparr>\<rparr>\<rparr>"
  have h1: "expirationCheck 5 demo_world = Inr ?w'"
    by (simp add: demo_defs lock_defs sweep_defs)
  have h2: "distinct (map fst (items (table demo_world)))"
    by (simp add: demo_defs)
  have h3: "list_all (\<lambda>a. accessedOn (heap demo_world a) \<le> 5) (map snd (items (table demo_world)))"
    by (simp add: demo_defs)
  have t: "ttls 5 ?w' = [5, 95]"
    by (simp add: ttls_def ttl_list_def remaining_def demo_defs)
  have l: "last_world (expirationCheck 5 demo_world) = ?w'"
    by (simp add: h1 last_world_def)
  show ?thesis
    using sweep_sets_cleanupInterval_to_min_ttl [OF h1 h2 h3] h1 h2 h3
    unfolding l t by (simp add: demo_defs)
qed

text \<open>
  What a sweep removes has expired: an item that has not expired at the sweep's clock
  reading, and so every item with lifespan 0, is still in the table when the sweep
  returns or stops.
\<close>

lemma deleteInternal_items:
  "items (table (result_world (deleteInternal k w))) = items (table w) \<or>
   items (table (result_world (deleteInternal k w))) = AList.delete k (items (table w))"
  by (auto simp: deleteInternal_def lock_defs call_all_def result_world_def
      split: sum.splits if_splits option.splits)

lemma sweep_item_items:
  assumes "map_of (items (table w)) k = Some a"
  shows "items (table (result_world (sweep_item now k a sd w))) = items (table w) \<or>
         expired now (heap w a) \<and>
         items (table (result_world (sweep_item now k a sd w))) = AList.delete k (items (table w))"
proof (cases "item_RLock a w")
  case (Inl q)
  then show ?thesis
    by (auto simp: sweep_item_def result_world_def item_RLock_def split: sum.splits)
next
  case (Inr w1)
  note r = item_RLock_RUnlock [OF Inr]
  show ?thesis
    using Inr r deleteInternal_items [of k w]
    by (auto simp: sweep_item_def Let_def result_world_def expired_def
        split: sum.splits if_splits prod.splits)
qed

lemma sweep_loop_keeps_unexpired:
  assumes "\<forall>(k, a) \<in> set al. map_of (items (table w)) k = Some a"
    and "map_of (items (table w)) k = Some a" and "\<not> expired now (heap w a)"
  shows "map_of (items (table (result_world (sweep_loop now (map fst al) sd w)))) k = Some a"
  using assms(1)
proof (induction al arbitrary: sd)
  case Nil
  then show ?case using assms(2) by (simp add: result_world_def)
next
  case (Cons p al)
  obtain k' a' where p: "p = (k', a')" by (cases p)
  have m: "map_of (items (table w)) k' = Some a'"
    using Cons.prems p by simp
  show ?case
  proof (cases "sweep_item now k' a' sd w")
    case (Inl q)
    have "items (table (result_world (sweep_item now k' a' sd w))) = items (table w) \<or>
          expired now (heap w a') \<and>
          items (table (result_world (sweep_item now k' a' sd w))) = AList.delete k' (items (table w))"
      by (rule sweep_item_items [OF m])
    moreover have "k' \<noteq> k" if "expired now (heap w a')"
      using that m assms(2,3) by auto
    ultimately have "map_of (items (table (result_world (sweep_item now k' a' sd w)))) k = Some a"
      using assms(2) by auto
    then show ?thesis
      using Inl p m by (simp add: result_world_def)
  next
    case (Inr q)
    obtain sd' w' where q: "q = (sd', w')" by (cases q)
    from sweep_item_Inr(1) [OF Inr [unfolded q] m] have w': "w' = w" .
    show ?thesis
      using Cons.IH [of sd'] Cons.prems Inr q w' p m by simp
  qed
qed

lemma expirationCheck_keeps_unexpired:
  assumes "distinct (map fst (items (table w)))"
    and "map_of (items (table w)) k = Some a" and "\<not> expired now (heap w a)"
  shows "map_of (items (table (last_world (expirationCheck now w)))) k = Some a"
proof (cases "table_Lock w")
  case (Inl q)
  then show ?thesis
    using assms(2)
    by (auto simp: expirationCheck_def last_world_def table_Lock_def split: sum.splits)
next
  case (Inr w1)
  then have w1: "items (table w1) = items (table w)" "heap w1 = heap w"
    by (auto simp: table_Lock_def split: sum.splits)
  let ?ws = "stop_timer w1"
  have m: "\<forall>(k, a) \<in> set (items (table w)). map_of (items (table ?ws)) k = Some a"
    using assms(1) by (auto simp: stop_timer_fields w1)
  have "map_of (items (table ?ws)) k = Some a" "\<not> expired now (heap ?ws a)"
    using assms(2,3) by (simp_all add: stop_timer_fields w1)
  from sweep_loop_keeps_unexpired [OF m this, of 0]
  have s: "map_of (items (table (result_world
             (sweep_loop now (map fst (items (table w))) 0 ?ws)))) k = Some a" .
  show ?thesis
    using Inr s
    by (auto simp: expirationCheck_def last_world_def result_world_def w1 table_Unlock_def
        split: sum.splits prod.splits)
qed

lemma expirationCheck_keeps_lifespan_0:
  assumes "distinct (map fst (items (table w)))"
    and "map_of (items (table w)) k = Some a" and "lifeSpan (heap w a) = 0"
  shows "map_of (items (table (last_world (expirationCheck now w)))) k = Some a"
  using assms by (intro expirationCheck_keeps_unexpired) (simp_all add: expired_def)

subsection \<open>Insertion\<close>

lemma table_mutex_unlocked_idem:
  "table_mutex t = unlocked \<Longrightarrow> t\<lparr>table_mutex := \<lparr>writer = False, readers = 0\<rparr>\<rparr> = t"
  by (cases t) (simp add: unlocked_def)

lemma addInternal_locked:
  assumes "table_mutex (table w) = unlocked"
  shows "addInternal now' (nextAddr w)
           (w\<lparr>heap := (heap w)(nextAddr w := NewCacheItem now k ls v),
              nextAddr := Suc (nextAddr w),
              table := (table w)\<lparr>table_mutex := \<lparr>writer = True, readers = 0\<rparr>\<rparr>\<rparr>) =
         (if starts_check ls (cleanupInterval (table w))
          then expirationCheck now' (inserted now k ls v w)
          else Inr (inserted now k ls v w))"
proof -
  have k: "key (NewCacheItem now k ls v) = k" "lifeSpan (NewCacheItem now k ls v) = ls"
    by (simp_all add: NewCacheItem_def)
  have i: "(table w)\<lparr>items := AList.update k (nextAddr w) (items (table w)),
                    table_mutex := \<lparr>writer = False, readers = 0\<rparr>\<rparr> =
           (table w)\<lparr>items := AList.update k (nextAddr w) (items (table w))\<rparr>"
    using assms by (cases "table w") (simp add: unlocked_def)
  show ?thesis
    by (auto simp: addInternal_def Let_def table_Unlock_def rw_Unlock_def call_all_def k
        starts_check_def inserted_def i)
qed

lemma Add_unfold:
  assumes "table_mutex (table w) = unlocked"
  shows "Add now now' k ls v w =
           (if starts_check ls (cleanupInterval (table w))
            then (case expirationCheck now' (inserted now k ls v w) of
                    Inl e \<Rightarrow> Inl e
                  | Inr w' \<Rightarrow> Inr (nextAddr w, w'))
            else Inr (nextAddr w, inserted now k ls v w))"
  using assms addInternal_locked [OF assms, of now' now k ls v]
  by (simp add: Add_def alloc_def table_Lock_def rw_Lock_def unlocked_def)

lemma NotFoundAdd_absent_unfold:
  assumes "table_mutex (table w) = unlocked" and "map_of (items (table w)) k = None"
  shows "NotFoundAdd now now' k ls v w =
           (if starts_check ls (cleanupInterval (table w))
            then (case expirationCheck now' (inserted now k ls v w) of
                    Inl e \<Rightarrow> Inl e
                  | Inr w' \<Rightarrow> Inr (True, w'))
            else Inr (True, inserted now k ls v w))"
proof -
  have e: "w\<lparr>table := (table w)\<lparr>table_mutex := \<lparr>writer = True, readers = 0\<rparr>\<rparr>,
             heap := (heap w)(nextAddr w := NewCacheItem now k ls v),
             nextAddr := Suc (nextAddr w)\<rparr> =
           w\<lparr>heap := (heap w)(nextAddr w := NewCacheItem now k ls v),
             nextAddr := Suc (nextAddr w),
             table := (table w)\<lparr>table_mutex := \<lparr>writer = True, readers = 0\<rparr>\<rparr>\<rparr>"
    by simp
  show ?thesis
    using assms
    by (simp add: NotFoundAdd_def alloc_def table_Lock_def rw_Lock_def unlocked_def e
        addInternal_locked [OF assms(1), of now' now k ls v, unfolded unlocked_def])
qed

lemma NotFoundAdd_present:
  assumes "table_mutex (table w) = unlocked" and "map_of (items (table w)) k = Some d"
  shows "NotFoundAdd now now' k ls v w = Inr (False, w)"
  using assms
  by (simp add: NotFoundAdd_def table_Lock_def table_Unlock_def rw_Lock_def rw_Unlock_def
      unlocked_def table_mutex_unlocked_idem)

lemma snd_set_update:
  "distinct (map fst al) \<Longrightarrow>
   snd ` set (AList.update k a al) \<subseteq> insert a (snd ` set (AList.delete k al))"
proof (induction al)
  case Nil
  then show ?case by simp
next
  case (Cons p al)
  obtain k' v' where p: "p = (k', v')" by (cases p)
  show ?case
  proof (cases "k' = k")
    case True
    then have "k \<notin> fst ` set al"
      using Cons.prems p by auto
    then have "AList.delete k al = al" by simp
    then show ?thesis using True p by auto
  next
    case False
    then show ?thesis
      using Cons p by auto
  qed
qed

lemma inserted_fields:
  "heap (inserted now k ls v w) = (heap w)(nextAddr w := NewCacheItem now k ls v)"
  "nextAddr (inserted now k ls v w) = Suc (nextAddr w)"
  "items (table (inserted now k ls v w)) = AList.update k (nextAddr w) (items (table w))"
  "trace (inserted now k ls v w) =
     trace w @ map (\<lambda>cb. CallAddedItem cb (nextAddr w)) (addItem (table w))"
  "table_mutex (table (inserted now k ls v w)) = table_mutex (table w)"
  "addItem (table (inserted now k ls v w)) = addItem (table w)"
  "aboutToDeleteItem (table (inserted now k ls v w)) = aboutToDeleteItem (table w)"
  "loadData (table (inserted now k ls v w)) = loadData (table w)"
  "name (table (inserted now k ls v w)) = name (table w)"
  "cleanupInterval (table (inserted now k ls v w)) = cleanupInterval (table w)"
  by (simp_all add: inserted_def)

lemma inserted_clean:
  assumes "table_ok w" and "check_finds_nothing now now' k ls w"
  shows "\<forall>a \<in> snd ` set (items (table (inserted now k ls v w))).
           \<not> expired now' (heap (inserted now k ls v w) a) \<and>
           \<not> writer (item_mutex (heap (inserted now k ls v w) a))"
proof
  fix a
  assume "a \<in> snd ` set (items (table (inserted now k ls v w)))"
  then have "a \<in> insert (nextAddr w) (snd ` set (AList.delete k (items (table w))))"
    using snd_set_update [of "items (table w)" k "nextAddr w"] assms(1)
    by (auto simp: inserted_fields table_ok_def)
  then consider "a = nextAddr w" | "a \<in> snd ` set (AList.delete k (items (table w)))" "a \<noteq> nextAddr w"
    by blast
  then show "\<not> expired now' (heap (inserted now k ls v w) a) \<and>
             \<not> writer (item_mutex (heap (inserted now k ls v w) a))"
  proof cases
    case 1
    then show ?thesis
      using assms(2)
      by (simp add: inserted_fields check_finds_nothing_def expired_def NewCacheItem_def unlocked_def)
  next
    case 2
    then show ?thesis
      using assms(2)
      by (auto simp: inserted_fields check_finds_nothing_def sweep_clean_def list_all_iff)
  qed
qed

lemma check_after_insert:
  assumes "table_mutex (table w) = unlocked" and "table_ok w"
    and "check_finds_nothing now now' k ls w"
  shows "\<exists>w'. expirationCheck now' (inserted now k ls v w) = Inr w' \<and>
              heap w' = (heap w)(nextAddr w := NewCacheItem now k ls v) \<and>
              items (table w') = AList.update k (nextAddr w) (items (table w)) \<and>
              trace w' = trace w @ map (\<lambda>cb. CallAddedItem cb (nextAddr w)) (addItem (table w)) \<and>
              nextAddr w' = Suc (nextAddr w) \<and> table_mutex (table w') = unlocked \<and>
              addItem (table w') = addItem (table w) \<and>
              aboutToDeleteItem (table w') = aboutToDeleteItem (table w) \<and>
              loadData (table w') = loadData (table w) \<and> name (table w') = name (table w)"
proof -
  have u: "table_mutex (table (inserted now k ls v w)) = unlocked"
    using assms(1) by (simp add: inserted_fields)
  have d: "distinct (map fst (items (table (inserted now k ls v w))))"
    using assms(2) by (simp add: inserted_fields table_ok_def distinct_update)
  from expirationCheck_returns [OF u d inserted_clean [OF assms(2,3)]]
  obtain w' where r: "expirationCheck now' (inserted now k ls v w) = Inr w'" ..
  note e = expirationCheck_Inr [OF r d]
  show ?thesis
    using r e(1-4) e(9) e(11-14) by (simp add: inserted_fields)
qed

lemma Add_returns:
  assumes "table_mutex (table w) = unlocked" and "table_ok w"
    and "no_eviction now now' k ls w"
  shows "\<exists>w'. Add now now' k ls v w = Inr (nextAddr w, w') \<and>
              heap w' = (heap w)(nextAddr w := NewCacheItem now k ls v) \<and>
              items (table w') = AList.update k (nextAddr w) (items (table w)) \<and>
              trace w' = trace w @ map (\<lambda>cb. CallAddedItem cb (nextAddr w)) (addItem (table w)) \<and>
              nextAddr w' = Suc (nextAddr w) \<and> table_mutex (table w') = unlocked \<and>
              addItem (table w') = addItem (table w) \<and>
              aboutToDeleteItem (table w') = aboutToDeleteItem (table w) \<and>
              loadData (table w') = loadData (table w) \<and> name (table w') = name (table w)"
proof (cases "starts_check ls (cleanupInterval (table w))")
  case True
  then have "check_finds_nothing now now' k ls w"
    using assms(3) by (simp add: no_eviction_def)
  from check_after_insert [OF assms(1,2) this, of v] show ?thesis
    using True by (auto simp: Add_unfold [OF assms(1)])
next
  case False
  then show ?thesis
    using assms(1) by (simp add: Add_unfold [OF assms(1)] inserted_fields)
qed

lemma NotFoundAdd_absent_returns:
  assumes "table_mutex (table w) = unlocked" and "table_ok w"
    and "map_of (items (table w)) k = None"
    and "no_eviction now now' k ls w"
  shows "\<exists>w'. NotFoundAdd now now' k ls v w = Inr (True, w') \<and>
              heap w' = (heap w)(nextAddr w := NewCacheItem now k ls v) \<and>
              items (table w') = AList.update k (nextAddr w) (items (table w)) \<and>
              trace w' = trace w @ map (\<lambda>cb. CallAddedItem cb (nextAddr w)) (addItem (table w)) \<and>
              nextAddr w' = Suc (nextAddr w) \<and> table_mutex (table w') = unlocked"
proof (cases "starts_check ls (cleanupInterval (table w))")
  case True
  then have "check_finds_nothing now now' k ls w"
    using assms(4) by (simp add: no_eviction_def)
  from check_after_insert [OF assms(1,2) this, of v] show ?thesis
    using True by (auto simp: NotFoundAdd_absent_unfold [OF assms(1,3)])
next
  case False
  then show ?thesis
    using assms(1) by (simp add: NotFoundAdd_absent_unfold [OF assms(1,3)] inserted_fields)
qed

lemmas check_defs = no_eviction_def check_finds_nothing_def starts_check_def sweep_clean_def
  expired_def table_ok_def


text \<open>
  C6. On a key that is present, \<open>NotFoundAdd\<close> returns false and changes nothing: the
  table and every item are as before. On an absent key it stores a new item under the
  key, calls the \<open>addItem\<close> callbacks with it and returns true, the other keys and items
  being as before, provided the insertion evicts nothing: it starts no expiration check,
  or the check it starts finds no expired item.
\<close>

theorem NotFoundAdd_inserts_only_when_absent:
  assumes "table_mutex (table w) = unlocked" and "table_ok w"
  shows "(map_of (items (table w)) k \<noteq> None \<longrightarrow>
            NotFoundAdd now now' k ls v w = Inr (False, w)) \<and>
         (map_of (items (table w)) k = None \<and> no_eviction now now' k ls w \<longrightarrow>
            (\<exists>w'. NotFoundAdd now now' k ls v w = Inr (True, w') \<and>
                  map_of (items (table w')) k = Some (nextAddr w) \<and>
                  heap w' (nextAddr w) = NewCacheItem now k ls v \<and>
                  (\<forall>k'. k' \<noteq> k \<longrightarrow> map_of (items (table w')) k' = map_of (items (table w)) k') \<and>
                  (\<forall>a. a \<noteq> nextAddr w \<longrightarrow> heap w' a = heap w a) \<and>
                  trace w' =
                    trace w @ map (\<lambda>cb. CallAddedItem cb (nextAddr w)) (addItem (table w))))"
proof (intro conjI impI)
  assume "map_of (items (table w)) k \<noteq> None"
  then obtain d where "map_of (items (table w)) k = Some d" by blast
  with assms(1) show "NotFoundAdd now now' k ls v w = Inr (False, w)"
    by (rule NotFoundAdd_present)
next
  assume a: "map_of (items (table w)) k = None \<and> no_eviction now now' k ls w"
  from NotFoundAdd_absent_returns [OF assms a [THEN conjunct1] a [THEN conjunct2], of v]
  obtain w' where r: "NotFoundAdd now now' k ls v w = Inr (True, w')"
    and h: "heap w' = (heap w)(nextAddr w := NewCacheItem now k ls v)"
    and i: "items (table w') = AList.update k (nextAddr w) (items (table w))"
    and t: "trace w' = trace w @ map (\<lambda>cb. CallAddedItem cb (nextAddr w)) (addItem (table w))"
    by blast
  show "\<exists>w'. NotFoundAdd now now' k ls v w = Inr (True, w') \<and>
                  map_of (items (table w')) k = Some (nextAddr w) \<and>
                  heap w' (nextAddr w) = NewCacheItem now k ls v \<and>
                  (\<forall>k'. k' \<noteq> k \<longrightarrow> map_of (items (table w')) k' = map_of (items (table w)) k') \<and>
                  (\<forall>a. a \<noteq> nextAddr w \<longrightarrow> heap w' a = heap w a) \<and>
                  trace w' =
                    trace w @ map (\<lambda>cb. CallAddedItem cb (nextAddr w)) (addItem (table w))"
    using r h i t by (simp add: update_conv')
qed

theorem NotFoundAdd_inserts_only_when_absent_witness:
  "table_mutex (table demo_world) = unlocked \<and> table_ok demo_world \<and>
   map_of (items (table demo_world)) (VStr ''a'') = Some 0 \<and>
   NotFoundAdd 5 6 (VStr ''a'') 3 (VStr ''v'') demo_world = Inr (False, demo_world) \<and>
   map_of (items (table demo_world)) (VStr ''k'') = None \<and>
   no_eviction 5 6 (VStr ''k'') 3 demo_world \<and>
   (\<exists>w'. NotFoundAdd 5 6 (VStr ''k'') 3 (VStr ''v'') demo_world = Inr (True, w') \<and>
         map_of (items (table w')) (VStr ''k'') = Some 3 \<and>
         map_of (items (table w')) (VStr ''b'') = Some 1 \<and>
         heap w' 3 = NewCacheItem 5 (VStr ''k'') 3 (VStr ''v'') \<and>
         trace w' = [CallAddedItem 1 3, CallAddedItem 2 3])"
proof -
  have h1: "table_mutex (table demo_world) = unlocked"
    by (simp add: demo_defs)
  have h2: "table_ok demo_world"
    by (simp add: demo_defs table_ok_def)
  have h3: "map_of (items (table demo_world)) (VStr ''a'') = Some 0"
    by (simp add: demo_defs)
  have h4: "map_of (items (table demo_world)) (VStr ''k'') = None"
    by (simp add: demo_defs)
  have h5: "no_eviction 5 6 (VStr ''k'') 3 demo_world"
    by (simp add: demo_defs check_defs time_Sub_def word_sle_eq word_sless_alt unlocked_def)
  have c: "nextAddr demo_world = 3" "addItem (table demo_world) = [1, 2]" "trace demo_world = []"
    "map_of (items (table demo_world)) (VStr ''b'') = Some 1"
    by (simp_all add: demo_defs)
  have p: "NotFoundAdd 5 6 (VStr ''a'') 3 (VStr ''v'') demo_world = Inr (False, demo_world)"
    using NotFoundAdd_inserts_only_when_absent [OF h1 h2, of "VStr ''a''" 5 6 3 "VStr ''v''"] h3
    by simp
  have q: "\<exists>w'. NotFoundAdd 5 6 (VStr ''k'') 3 (VStr ''v'') demo_world = Inr (True, w') \<and>
         map_of (items (table w')) (VStr ''k'') = Some 3 \<and>
         map_of (items (table w')) (VStr ''b'') = Some 1 \<and>
         heap w' 3 = NewCacheItem 5 (VStr ''k'') 3 (VStr ''v'') \<and>
         trace w' = [CallAddedItem 1 3, CallAddedItem 2 3]"
    using NotFoundAdd_inserts_only_when_absent [OF h1 h2, of "VStr ''k''" 5 6 3 "VStr ''v''"] h4 h5
      c(4)
    unfolding c(1-3) by auto
  show ?thesis
    using h1 h2 h3 h4 h5 p q by blast
qed

text \<open>
  C6 as it was claimed, for every absent key, fails: the key \<open>k\<close> is absent, the new item
  lives 3ns and the check that its insertion starts reads the clock 4ns after the item
  was created. The check deletes the new item; the call does not return true (it does
  not return at all) and the key is not in the table.
\<close>

theorem NotFoundAdd_absent_key_evicted_counterexample:
  "map_of (items (table demo_world)) (VStr ''k'') = None \<and>
   isl (NotFoundAdd 5 9 (VStr ''k'') 3 (VStr ''v'') demo_world) \<and>
   map_of (items (table (result_world (NotFoundAdd 5 9 (VStr ''k'') 3 (VStr ''v'') demo_world))))
     (VStr ''k'') = None"
  by (simp add: demo_defs NotFoundAdd_def alloc_def addInternal_def lock_defs sweep_defs
      result_world_def)

subsection \<open>The callbacks a run can call\<close>

lemma deleteInternal_trace:
  assumes "map_of (items (table w)) k = Some r"
  shows "\<exists>rest. trace (result_world (deleteInternal k w)) = trace w @ rest \<and>
                list_all (about r) rest"
  using assms
  by (auto simp: deleteInternal_def lock_defs call_all_def result_world_def about_def
      list_all_iff split: sum.splits if_splits)

lemma sweep_item_trace:
  assumes "map_of (items (table w)) k = Some a"
  shows "\<exists>rest. trace (result_world (sweep_item now k a sd w)) = trace w @ rest \<and>
                list_all (about a) rest"
proof (cases "sweep_item now k a sd w")
  case (Inr p)
  obtain sd' w' where p: "p = (sd', w')" by (cases p)
  from sweep_item_Inr(1) [OF Inr [unfolded p] assms] have "w' = w" .
  then show ?thesis
    using Inr p by (simp add: result_world_def)
next
  case (Inl p)
  obtain e wc where p: "p = (e, wc)" by (cases p)
  show ?thesis
  proof (cases "item_RLock a w")
    case l: (Inl q)
    then show ?thesis
      using Inl p by (auto simp: sweep_item_def result_world_def item_RLock_def split: sum.splits)
  next
    case l: (Inr w1)
    note r = item_RLock_RUnlock [OF l]
    from deleteInternal_trace [OF assms] obtain rest where
      d: "trace (result_world (deleteInternal k w)) = trace w @ rest" "list_all (about a) rest"
      by blast
    show ?thesis
      using Inl p l r d
      by (auto simp: sweep_item_def Let_def result_world_def split: sum.splits if_splits prod.splits)
  qed
qed

lemma sweep_loop_trace:
  assumes "\<forall>(k, a) \<in> set al. map_of (items (table w)) k = Some a"
  shows "\<exists>rest. trace (result_world (sweep_loop now (map fst al) sd w)) = trace w @ rest \<and>
                list_all (\<lambda>e. \<exists>a \<in> snd ` set al. about a e) rest"
  using assms
proof (induction al arbitrary: sd)
  case Nil
  then show ?case by (simp add: result_world_def)
next
  case (Cons p al)
  obtain k a where p: "p = (k, a)" by (cases p)
  have m: "map_of (items (table w)) k = Some a"
    using Cons.prems p by simp
  show ?case
  proof (cases "sweep_item now k a sd w")
    case (Inl q)
    from sweep_item_trace [OF m, of now sd] obtain rest where
      "trace (result_world (sweep_item now k a sd w)) = trace w @ rest" "list_all (about a) rest"
      by blast
    then have "trace (result_world (sweep_loop now (map fst (p # al)) sd w)) = trace w @ rest"
      "list_all (\<lambda>e. \<exists>a \<in> snd ` set (p # al). about a e) rest"
      using Inl p m by (auto simp: result_world_def list_all_iff)
    then show ?thesis by blast
  next
    case (Inr q)
    obtain sd' w' where q: "q = (sd', w')" by (cases q)
    from sweep_item_Inr(1) [OF Inr [unfolded q] m] have w': "w' = w" .
    from Cons.IH [of sd'] Cons.prems obtain rest where
      "trace (result_world (sweep_loop now (map fst al) sd' w)) = trace w @ rest"
      "list_all (\<lambda>e. \<exists>a \<in> snd ` set al. about a e) rest"
      by auto
    then have "trace (result_world (sweep_loop now (map fst (p # al)) sd w)) = trace w @ rest"
      "list_all (\<lambda>e. \<exists>a \<in> snd ` set (p # al). about a e) rest"
      using Inr q w' p m by (auto simp: list_all_iff)
    then show ?thesis by blast
  qed
qed

lemma expirationCheck_trace:
  assumes "distinct (map fst (items (table w)))"
  shows "\<exists>rest. trace (last_world (expirationCheck now w)) = trace w @ rest \<and>
                list_all (\<lambda>e. \<exists>a \<in> snd ` set (items (table w)). about a e) rest"
proof (cases "table_Lock w")
  case (Inl q)
  then show ?thesis
    by (auto simp: expirationCheck_def last_world_def table_Lock_def split: sum.splits)
next
  case (Inr w1)
  then have w1: "items (table w1) = items (table w)" "trace w1 = trace w"
    by (auto simp: table_Lock_def split: sum.splits)
  have m: "\<forall>(k, a) \<in> set (items (table w)). map_of (items (table (stop_timer w1))) k = Some a"
    using assms by (auto simp: stop_timer_fields w1)
  from sweep_loop_trace [OF m, of now 0] obtain rest where
    r: "trace (result_world (sweep_loop now (map fst (items (table w))) 0 (stop_timer w1))) =
          trace w @ rest"
    "list_all (\<lambda>e. \<exists>a \<in> snd ` set (items (table w)). about a e) rest"
    by (auto simp: stop_timer_fields w1)
  have "trace (last_world (expirationCheck now w)) = trace w @ rest"
    using Inr r(1)
    by (auto simp: expirationCheck_def last_world_def result_world_def w1 table_Unlock_def
        split: sum.splits prod.splits)
  with r(2) show ?thesis by blast
qed

lemma about_same: "about a e \<Longrightarrow> about d e \<Longrightarrow> a = d"
  by (cases e) (simp_all add: about_def)

lemma displaced_not_stored:
  assumes "distinct (map fst al)" and "distinct (map snd al)" and "map_of al k = Some d"
  shows "d \<notin> snd ` set (AList.delete k al)"
proof
  assume "d \<in> snd ` set (AList.delete k al)"
  then obtain k' where in': "(k', d) \<in> set al" and ne: "k' \<noteq> k"
    by (auto simp: AList.delete_eq)
  have "(k, d) \<in> set al"
    using assms(3) by (rule map_of_SomeD)
  moreover have "inj_on snd (set al)"
    using assms(2) by (simp add: distinct_map)
  ultimately have "(k', d) = (k, d)"
    using in' by (intro inj_onD [of snd "set al"]) simp_all
  with ne show False by simp
qed

text \<open>
  C9. \<open>Add\<close> on a key that is present replaces the item: the \<open>addItem\<close> callbacks are
  called first, in order, with the new item, and whatever the run does next, no callback
  of any kind is called with or for the displaced item. When the insertion evicts nothing
  (it starts no expiration check, or the check finds no expired item) no other callback
  is called at all, \<open>Add\<close> returns the new item, the key maps to it and the displaced
  item is as it was.
\<close>

theorem Add_replaces_without_callbacks_for_displaced_item:
  assumes "table_mutex (table w) = unlocked" and "table_ok w"
    and "map_of (items (table w)) k = Some d"
  shows "\<exists>rest. trace (result_world (Add now now' k ls v w)) =
                  trace w @ map (\<lambda>cb. CallAddedItem cb (nextAddr w)) (addItem (table w)) @ rest \<and>
                filter (about d)
                  (map (\<lambda>cb. CallAddedItem cb (nextAddr w)) (addItem (table w)) @ rest) = [] \<and>
                (no_eviction now now' k ls w \<longrightarrow>
                   rest = [] \<and>
                   (\<exists>w'. Add now now' k ls v w = Inr (nextAddr w, w') \<and>
                         map_of (items (table w')) k = Some (nextAddr w) \<and>
                         heap w' (nextAddr w) = NewCacheItem now k ls v \<and>
                         heap w' d = heap w d))"
proof -
  let ?a = "nextAddr w"
  let ?added = "map (\<lambda>cb. CallAddedItem cb ?a) (addItem (table w))"
  let ?ins = "inserted now k ls v w"
  have dk: "distinct (map fst (items (table w)))" and ds: "distinct (map snd (items (table w)))"
    and al: "list_all (\<lambda>a. a < ?a) (map snd (items (table w)))"
    using assms(2) by (simp_all add: table_ok_def)
  have "(k, d) \<in> set (items (table w))"
    using assms(3) by (rule map_of_SomeD)
  then have "d < ?a"
    using al by (auto simp: list_all_iff)
  then have dn: "d \<noteq> ?a" by simp
  have dout: "d \<notin> snd ` set (items (table ?ins))"
    using snd_set_update [OF dk, of k ?a] displaced_not_stored [OF dk ds assms(3)] dn
    by (auto simp: inserted_fields)
  have added: "filter (about d) ?added = []"
    using dn by (auto simp: filter_empty_conv about_def)
  have tr: "\<exists>rest. trace (result_world (Add now now' k ls v w)) = trace w @ ?added @ rest \<and>
                   filter (about d) rest = []"
  proof (cases "starts_check ls (cleanupInterval (table w))")
    case False
    then have "trace (result_world (Add now now' k ls v w)) = trace w @ ?added @ []"
      by (simp add: Add_unfold [OF assms(1)] result_world_def inserted_fields)
    then show ?thesis by fastforce
  next
    case True
    have di: "distinct (map fst (items (table ?ins)))"
      using dk by (simp add: inserted_fields distinct_update)
    from expirationCheck_trace [OF di, of now'] obtain rest where
      r: "trace (last_world (expirationCheck now' ?ins)) = trace ?ins @ rest"
      "list_all (\<lambda>e. \<exists>a \<in> snd ` set (items (table ?ins)). about a e) rest"
      by blast
    have "result_world (Add now now' k ls v w) = last_world (expirationCheck now' ?ins)"
      using True
      by (auto simp: Add_unfold [OF assms(1)] result_world_def last_world_def split: sum.splits)
    then have t: "trace (result_world (Add now now' k ls v w)) = trace w @ ?added @ rest"
      using r(1) by (simp add: inserted_fields)
    have "filter (about d) rest = []"
      using r(2) dout by (auto simp: filter_empty_conv list_all_iff dest: about_same)
    with t show ?thesis by blast
  qed
  then obtain rest where
    t: "trace (result_world (Add now now' k ls v w)) = trace w @ ?added @ rest"
    and f: "filter (about d) rest = []"
    by blast
  have quiet: "rest = [] \<and>
         (\<exists>w'. Add now now' k ls v w = Inr (?a, w') \<and>
               map_of (items (table w')) k = Some ?a \<and>
               heap w' ?a = NewCacheItem now k ls v \<and> heap w' d = heap w d)"
    if ne: "no_eviction now now' k ls w"
  proof -
    from Add_returns [OF assms(1,2) ne, of v] obtain w' where
      r: "Add now now' k ls v w = Inr (?a, w')"
      and h: "heap w' = (heap w)(?a := NewCacheItem now k ls v)"
      and i: "items (table w') = AList.update k ?a (items (table w))"
      and tw: "trace w' = trace w @ ?added"
      by blast
    have "rest = []"
      using t r tw by (simp add: result_world_def)
    moreover have "map_of (items (table w')) k = Some ?a" "heap w' ?a = NewCacheItem now k ls v"
      "heap w' d = heap w d"
      using h i dn by (simp_all add: update_conv')
    ultimately show ?thesis using r by blast
  qed
  show ?thesis
    using t f added quiet by (intro exI [of _ rest]) simp
qed

theorem Add_replaces_without_callbacks_for_displaced_item_witness:
  "table_mutex (table demo_world) = unlocked \<and> table_ok demo_world \<and>
   map_of (items (table demo_world)) (VStr ''a'') = Some 0 \<and>
   no_eviction 5 6 (VStr ''a'') 3 demo_world \<and>
   trace (result_world (Add 5 6 (VStr ''a'') 3 (VStr ''v'') demo_world)) =
     [CallAddedItem 1 3, CallAddedItem 2 3] \<and>
   (\<exists>w'. Add 5 6 (VStr ''a'') 3 (VStr ''v'') demo_world = Inr (3, w') \<and>
         map_of (items (table w')) (VStr ''a'') = Some 3 \<and>
         heap w' 0 = heap demo_world 0)"
proof -
  have h1: "table_mutex (table demo_world) = unlocked"
    by (simp add: demo_defs)
  have h2: "table_ok demo_world"
    by (simp add: demo_defs table_ok_def)
  have h3: "map_of (items (table demo_world)) (VStr ''a'') = Some 0"
    by (simp add: demo_defs)
  have h4: "no_eviction 5 6 (VStr ''a'') 3 demo_world"
    by (simp add: demo_defs check_defs time_Sub_def word_sle_eq word_sless_alt unlocked_def)
  have c: "nextAddr demo_world = 3" "addItem (table demo_world) = [1, 2]" "trace demo_world = []"
    by (simp_all add: demo_defs)
  show ?thesis
    using Add_replaces_without_callbacks_for_displaced_item [OF h1 h2 h3, of 5 6 3 "VStr ''v''"]
      h1 h2 h3 h4
    unfolding c by auto
qed

text \<open>
  C9 as it was claimed, that only the \<open>addItem\<close> callbacks are called, fails: \<open>Add\<close> of
  an item that lives 9ns under the key \<open>a\<close> starts an expiration check (9ns is less than
  the interval of 10ns); at time 11 the check finds \<open>b\<close> expired and calls the table's
  \<open>aboutToDeleteItem\<close> callbacks and the expiry callbacks of \<open>b\<close>.
\<close>

theorem Add_starts_check_that_fires_callbacks_counterexample:
  "map_of (items (table demo_world)) (VStr ''a'') = Some 0 \<and>
   trace (result_world (Add 5 11 (VStr ''a'') 9 (VStr ''v'') demo_world)) =
     [CallAddedItem 1 3, CallAddedItem 2 3,
      CallAboutToDeleteItem 3 1, CallAboutToDeleteItem 4 1,
      CallAboutToExpire 1 7 (VStr ''b''), CallAboutToExpire 1 8 (VStr ''b'')]"
  by (simp add: demo_defs Add_def alloc_def addInternal_def lock_defs sweep_defs result_world_def)

subsection \<open>Value on a miss\<close>








subsection \<open>What MostAccessed computes before it releases the lock\<close>

text \<open>
  The list that \<open>MostAccessed\<close> has built when it reaches the deferred release is the one
  the specification describes: at most \<open>min n (Count ())\<close> items, in order of
  non-increasing access count.
\<close>

lemma set_insert_pair: "set (insert_pair x ys) = insert x (set ys)"
  by (induction ys) auto

lemma length_insert_pair: "length (insert_pair x ys) = Suc (length ys)"
  by (induction ys) auto

lemma sorted_insert_pair:
  "sorted_wrt (\<lambda>x y. sint (snd y) \<le> sint (snd x)) ys \<Longrightarrow>
   sorted_wrt (\<lambda>x y. sint (snd y) \<le> sint (snd x)) (insert_pair x ys)"
  by (induction ys) (auto simp: set_insert_pair word_sless_alt)

lemma sort_pairs_props:
  "set (sort_pairs p) = set p" "length (sort_pairs p) = length p"
  "sorted_wrt (\<lambda>x y. sint (snd y) \<le> sint (snd x)) (sort_pairs p)"
  by (induction p) (simp_all add: sort_pairs_def set_insert_pair length_insert_pair sorted_insert_pair)

lemma collect_source:
  "v \<in> set (collect count c ps tbl) \<Longrightarrow> \<exists>p \<in> set ps. map_of tbl (fst p) = Some v"
  by (induction count c ps tbl rule: collect.induct) (auto split: if_splits option.splits)

lemma length_collect_le: "length (collect count c ps tbl) \<le> length ps"
  by (induction count c ps tbl rule: collect.induct) (auto split: option.splits)

lemma length_collect_count:
  "length (collect count c ps tbl) \<le> nat (sint count - sint c)"
proof (induction count c ps tbl rule: collect.induct)
  case (1 count c tbl)
  then show ?case by simp
next
  case (2 count c v vs tbl)
  show ?case
  proof (cases "count \<le>s c")
    case True
    then show ?thesis by simp
  next
    case False
    then have lt: "sint c < sint count"
      by (simp add: word_sle_eq)
    moreover have "sint count \<le> 2 ^ 63 - 1"
      using sint_lt [of count] by simp
    ultimately have "sint (c + 1) = sint c + 1"
      by (intro sint_succ_small) simp
    then have "length (collect count (c + 1) vs tbl) \<le> nat (sint count - sint c - 1)"
      using 2 False by (cases "map_of tbl (fst v)") (simp_all add: algebra_simps)
    then show ?thesis
      using False lt by (auto split: option.splits)
  qed
qed

lemma sorted_collect:
  assumes "sorted_wrt (\<lambda>x y. sint (snd y) \<le> sint (snd x)) ps"
    and "\<forall>p \<in> set ps. \<forall>v. map_of tbl (fst p) = Some v \<longrightarrow> accessCount (h v) = snd p"
  shows "sorted_wrt (\<lambda>a b. sint (accessCount (h b)) \<le> sint (accessCount (h a)))
           (collect count c ps tbl)"
  using assms
proof (induction count c ps tbl rule: collect.induct)
  case (1 count c tbl)
  then show ?case by simp
next
  case (2 count c v vs tbl)
  show ?case
  proof (cases "count \<le>s c")
    case True
    then show ?thesis by simp
  next
    case False
    have tail: "sorted_wrt (\<lambda>a b. sint (accessCount (h b)) \<le> sint (accessCount (h a)))
                  (collect count (c + 1) vs tbl)"
      using 2 False by (cases "map_of tbl (fst v)") auto
    show ?thesis
    proof (cases "map_of tbl (fst v)")
      case None
      then show ?thesis using False tail by simp
    next
      case (Some item)
      have hv: "accessCount (h item) = snd v"
        using "2.prems"(2) Some by simp
      have "sint (accessCount (h b)) \<le> sint (accessCount (h item))"
        if "b \<in> set (collect count (c + 1) vs tbl)" for b
      proof -
        from collect_source [OF that] obtain p where
          p: "p \<in> set vs" "map_of tbl (fst p) = Some b"
          by blast
        then have "accessCount (h b) = snd p"
          using "2.prems"(2) by simp
        moreover have "sint (snd p) \<le> sint (snd v)"
          using "2.prems"(1) p(1) by simp
        ultimately show ?thesis using hv by simp
      qed
      then show ?thesis
        using False Some tail by simp
    qed
  qed
qed

lemma most_accessed_items_sorted_bounded:
  assumes "distinct (map fst (items (table w)))"
  shows "length (most_accessed_items count w) \<le> min (nat (sint count)) (length (items (table w)))"
    and "sorted_wrt (\<lambda>a b. sint (accessCount (heap w b)) \<le> sint (accessCount (heap w a)))
           (most_accessed_items count w)"
proof -
  let ?p = "map (\<lambda>(k, v). (k, accessCount (heap w v))) (items (table w))"
  have "length (most_accessed_items count w) \<le> length (sort_pairs ?p)"
    unfolding most_accessed_items_def by (rule length_collect_le)
  moreover have "length (most_accessed_items count w) \<le> nat (sint count - sint (0 :: 64 word))"
    unfolding most_accessed_items_def by (rule length_collect_count)
  ultimately show "length (most_accessed_items count w) \<le>
                     min (nat (sint count)) (length (items (table w)))"
    by (simp add: sort_pairs_props)
  have src: "\<forall>p \<in> set (sort_pairs ?p). \<forall>v. map_of (items (table w)) (fst p) = Some v \<longrightarrow>
               accessCount (heap w v) = snd p"
  proof (intro ballI allI impI)
    fix p v
    assume "p \<in> set (sort_pairs ?p)" and m: "map_of (items (table w)) (fst p) = Some v"
    then obtain k b where kb: "(k, b) \<in> set (items (table w))" "p = (k, accessCount (heap w b))"
      by (auto simp: sort_pairs_props)
    then have "map_of (items (table w)) k = Some b"
      using assms by simp
    then show "accessCount (heap w v) = snd p"
      using m kb by simp
  qed
  show "sorted_wrt (\<lambda>a b. sint (accessCount (heap w b)) \<le> sint (accessCount (heap w a)))
           (most_accessed_items count w)"
    unfolding most_accessed_items_def
    by (rule sorted_collect [OF sort_pairs_props(3) src])
qed

end
